theory Spec2Isabelle
  imports Main "HOL-Library.Sublist" "HOL-Library.Word"
begin

section \<open>The dispatch-and-retry engine of the gateway (service package, \<open>BalanceChat\<close>)\<close>

text \<open>
  The development embeds \<open>BalanceChat\<close>, \<open>SaveChatLog\<close> and \<open>ProvidersBymodelsName\<close>.
  Go's \<open>uint\<close> identifiers are \<open>nat\<close> (no arithmetic is done on them); Go's \<open>int\<close>
  fields (\<open>Weight\<close>, \<open>MaxRetry\<close>, \<open>TimeOut\<close>) are \<open>int\<close>: the only arithmetic on them
  that can leave the 64-bit range is the conversion of \<open>TimeOut\<close> to a duration in
  nanoseconds, whose wrap-around is written out in \<open>timer_duration\<close>.
  Byte slices and strings are \<open>string\<close>. Instants are nanoseconds, as \<open>int\<close>.
\<close>

subsection \<open>Rows of the store\<close>

record Model =
  m_ID :: nat
  m_Name :: string
  m_MaxRetry :: int
  m_TimeOut :: int
  m_DeletedAt :: "int option"

record Provider =
  p_ID :: nat
  p_Name :: string
  p_Type :: string
  p_Config :: string
  p_DeletedAt :: "int option"

record ModelWithProvider =
  mp_ID :: nat
  mp_ModelID :: nat
  mp_ProviderModel :: string
  mp_ProviderID :: nat
  mp_ToolCall :: "bool option"
  mp_StructuredOutput :: "bool option"
  mp_Image :: "bool option"
  mp_Weight :: int
  mp_DeletedAt :: "int option"

text \<open>
  The declarations of the three row types live in the \<open>models\<close> package, which is not
  among the sources. Whether the object-relational mapper adds \<open>deleted_at IS NULL\<close> to
  a query by itself depends on the row type declaring the mapper's soft-delete field, so
  that fact is a parameter of the store, one flag per row type.
\<close>

record store =
  tbl_models :: "Model list"
  tbl_mappings :: "ModelWithProvider list"
  tbl_providers :: "Provider list"
  scoped_models :: bool
  scoped_mappings :: bool
  scoped_providers :: bool
  fail_models :: bool
  fail_mappings :: bool
  fail_providers :: bool

datatype error =
    ReadBodyFailed
  | BadRequest
  | StoreFailure
  | ModelNotFound
  | NoMappings
  | NoProviderFound
  | NoProvidersForStyle
  | NoEligibleMapping
  | Cancelled
  | RetryTimeout
  | EmptyPool
  | PickUndefined
  | AdapterInitFailed
  | CopyFailed
  | MaxRetriesReached
  | PanicChanSize
  | PanicIndexOutOfRange
  | PanicNilProvider

subsection \<open>Queries\<close>

text \<open>\<open>Where(conds).Find\<close>: the rows that satisfy the written conditions, and the
  mapper's own soft-delete condition when the row type is scoped.\<close>

definition Find :: "bool \<Rightarrow> ('r \<Rightarrow> int option) \<Rightarrow> ('r \<Rightarrow> bool) \<Rightarrow> 'r list \<Rightarrow> 'r list" where
  "Find scoped deleted conds rows =
     filter (\<lambda>r. conds r \<and> (scoped \<longrightarrow> deleted r = None)) rows"

text \<open>\<open>Where(conds).First\<close>: the matching row of least primary key, or record-not-found.\<close>

fun least_by :: "('r \<Rightarrow> nat) \<Rightarrow> 'r \<Rightarrow> 'r list \<Rightarrow> 'r" where
  "least_by key b [] = b"
| "least_by key b (r # rs) = least_by key (if key r < key b then r else b) rs"

definition First :: "bool \<Rightarrow> ('r \<Rightarrow> int option) \<Rightarrow> ('r \<Rightarrow> nat) \<Rightarrow> ('r \<Rightarrow> bool) \<Rightarrow> 'r list \<Rightarrow> 'r option" where
  "First scoped deleted key conds rows =
     (case Find scoped deleted conds rows of [] \<Rightarrow> None | r # rs \<Rightarrow> Some (least_by key r rs))"

record ProvidersWithlimit =
  Providers :: "ModelWithProvider list"
  MaxRetry :: int
  TimeOut :: int

definition ProvidersBymodelsName :: "store \<Rightarrow> string \<Rightarrow> error + ProvidersWithlimit" where
  "ProvidersBymodelsName db modelsName =
     (if fail_models db then Inl StoreFailure
      else case First (scoped_models db) m_DeletedAt m_ID
                  (\<lambda>m. m_Name m = modelsName \<and> m_DeletedAt m = None) (tbl_models db) of
        None \<Rightarrow> Inl ModelNotFound
      | Some llmmodels \<Rightarrow>
          if fail_mappings db then Inl StoreFailure
          else let llmproviders = Find (scoped_mappings db) mp_DeletedAt
                                    (\<lambda>mp. mp_ModelID mp = m_ID llmmodels) (tbl_mappings db)
               in if length llmproviders = 0 then Inl NoMappings
                  else Inr \<lparr>Providers = llmproviders,
                            MaxRetry = m_MaxRetry llmmodels,
                            TimeOut = m_TimeOut llmmodels\<rparr>)"

text \<open>The provider query of \<open>BalanceChat\<close>: \<open>id IN providerIds\<close> and \<open>type = style\<close>.\<close>

definition load_providers :: "store \<Rightarrow> nat list \<Rightarrow> string \<Rightarrow> Provider list" where
  "load_providers db providerIds style =
     Find (scoped_providers db) p_DeletedAt
       (\<lambda>p. p_ID p \<in> set providerIds \<and> p_Type p = style) (tbl_providers db)"

subsection \<open>The parsed request and pool resolution\<close>

record before =
  b_model :: string
  b_stream :: bool
  b_toolCall :: bool
  b_structuredOutput :: bool
  b_image :: bool
  b_raw :: string

text \<open>\<open>providerMap\<close>: built by a loop over the loaded providers, a later row overwriting
  an earlier one of the same id.\<close>

definition build_providerMap :: "Provider list \<Rightarrow> (nat \<rightharpoonup> Provider)" where
  "build_providerMap provideritems = fold (\<lambda>p m. m(p_ID p \<mapsto> p)) provideritems Map.empty"

text \<open>The three capability tests and the provider test of the filtering loop, in the
  source's order; \<open>skipped\<close> is true where the loop body executes \<open>continue\<close>.\<close>

definition skipped :: "before \<Rightarrow> string \<Rightarrow> (nat \<rightharpoonup> Provider) \<Rightarrow> ModelWithProvider \<Rightarrow> bool" where
  "skipped bf style providerMap mp =
     (if mp_ToolCall mp \<noteq> None \<and> b_toolCall bf \<and> \<not> the (mp_ToolCall mp) then True
      else if mp_StructuredOutput mp \<noteq> None \<and> b_structuredOutput bf
              \<and> \<not> the (mp_StructuredOutput mp) then True
      else if mp_Image mp \<noteq> None \<and> b_image bf \<and> \<not> the (mp_Image mp) then True
      else case providerMap (mp_ProviderID mp) of
             None \<Rightarrow> True
           | Some provider \<Rightarrow> p_Type provider \<noteq> style)"

text \<open>The weight map \<open>items\<close> is an association list with distinct keys: assignment
  replaces the value of a present key in place and appends an absent one, \<open>delete\<close>
  removes the key.\<close>

type_synonym weights = "(nat \<times> int) list"

fun assign :: "nat \<Rightarrow> int \<Rightarrow> weights \<Rightarrow> weights" where
  "assign k v [] = [(k, v)]"
| "assign k v ((k', v') # kvs) = (if k' = k then (k, v) # kvs else (k', v') # assign k v kvs)"

definition delete_key :: "nat \<Rightarrow> weights \<Rightarrow> weights" where
  "delete_key k kvs = filter (\<lambda>kv. fst kv \<noteq> k) kvs"

fun build_items :: "before \<Rightarrow> string \<Rightarrow> (nat \<rightharpoonup> Provider) \<Rightarrow> ModelWithProvider list \<Rightarrow> weights \<Rightarrow> weights" where
  "build_items bf style providerMap [] items = items"
| "build_items bf style providerMap (mp # mps) items =
     build_items bf style providerMap mps
       (if skipped bf style providerMap mp then items
        else assign (mp_ID mp) (mp_Weight mp) items)"

subsection \<open>Chat logs\<close>

datatype log_error = CallError string | StatusError int string

record ChatLog =
  cl_Name :: string
  cl_ProviderModel :: string
  cl_ProviderName :: string
  cl_Status :: string
  cl_Style :: string
  cl_Retry :: int
  cl_ProxyTime :: int
  cl_Error :: "log_error option"

text \<open>Modelled from the spec: \<open>ChatLog.WithError\<close> of the \<open>models\<close> package, which is
  not among the sources. A failed attempt's log has \<open>status = error\<close> and carries the
  error text (here the error itself: the call's error, or the status and the body read).\<close>

definition WithError :: "ChatLog \<Rightarrow> log_error \<Rightarrow> ChatLog" where
  "WithError log e = log\<lparr>cl_Status := ''error'', cl_Error := Some e\<rparr>"

subsection \<open>The balancer\<close>

text \<open>Modelled from the spec: \<open>balancer.WeightedRandom\<close>, which is not among the sources
  (section 4.A): compute the total, draw an integer in \<open>[0, total)\<close>, scan the entries
  accumulating weights and return the first key whose running sum exceeds the draw; an
  empty map is the error \<open>EmptyPool\<close>. The draw comes from the environment and is reduced
  into \<open>[0, total)\<close>. The spec states the operation for weights of at least 1 only;
  outside that precondition the model returns the error \<open>PickUndefined\<close>.\<close>

fun scan :: "weights \<Rightarrow> int \<Rightarrow> int \<Rightarrow> nat option" where
  "scan [] acc r = None"
| "scan ((k, w) # kvs) acc r = (if r < acc + w then Some k else scan kvs (acc + w) r)"

definition WeightedRandom :: "weights \<Rightarrow> nat \<Rightarrow> error + nat" where
  "WeightedRandom items draw =
     (if items = [] then Inl EmptyPool
      else if \<exists>kv \<in> set items. snd kv < 1 then Inl PickUndefined
      else case scan items 0 (int draw mod sum_list (map snd items)) of
             None \<Rightarrow> Inl PickUndefined
           | Some k \<Rightarrow> Inr k)"

subsection \<open>Copying the response: \<open>io.Copy\<close> from the tee reader to the client\<close>

text \<open>
  One round of \<open>io.Copy(c.Writer, tee)\<close> reads from the tee reader and, when it got
  bytes, writes them to the client; it stops at a write error, a short write, a read error
  or the end of the input. The tee reader reads from the upstream body and, when it got
  bytes, writes them to the pipe; when that write fails it returns the number of bytes
  the pipe took together with the error, so the copy hands exactly those bytes to the
  client before it stops. What each call does is given by the environment, one event per
  round:
  \<^item> the body read returns the next \<open>Suc n\<close> bytes at most (\<open>Data n\<close>), end of file once
    the body is used up, or fails (\<open>Fail\<close>);
  \<^item> the pipe write takes everything (\<open>None\<close>) or fails after \<open>m\<close> bytes (\<open>Some m\<close>);
  \<^item> the client write takes everything (\<open>None\<close>) or stops after \<open>m\<close> bytes (\<open>Some m\<close>:
    a write error or a short write, both of which end the copy with an error).
\<close>

datatype read_ev = Data nat | Fail

record copy_ev =
  c_read :: read_ev
  c_pipe :: "nat option"
  c_write :: "nat option"

record copied =
  k_ok :: bool
  k_client :: string
  k_pipe :: string

function io_Copy :: "(nat \<Rightarrow> copy_ev) \<Rightarrow> nat \<Rightarrow> string \<Rightarrow> string \<Rightarrow> string \<Rightarrow> copied" where
  "io_Copy ev i rest client pipe =
     (case c_read (ev i) of
        Fail \<Rightarrow> \<lparr>k_ok = False, k_client = client, k_pipe = pipe\<rparr>
      | Data n \<Rightarrow>
          if rest = [] then \<lparr>k_ok = True, k_client = client, k_pipe = pipe\<rparr>
          else
            let p = take (Suc n) rest;
                q = (case c_pipe (ev i) of None \<Rightarrow> p | Some m \<Rightarrow> take m p);
                pipe' = pipe @ q;
                client' = client @ (case c_write (ev i) of None \<Rightarrow> q | Some m \<Rightarrow> take m q)
            in if c_write (ev i) \<noteq> None \<or> c_pipe (ev i) \<noteq> None
               then \<lparr>k_ok = False, k_client = client', k_pipe = pipe'\<rparr>
               else io_Copy ev (Suc i) (drop (Suc n) rest) client' pipe')"
  by pat_completeness auto
termination
  by (relation "measure (\<lambda>(ev, i, rest, client, pipe). length rest)") auto

subsection \<open>One attempt of the dispatch loop\<close>

datatype chat_outcome = ChatErr string | ChatResp int string

text \<open>What the environment decides during one iteration: which channels the selector
  finds ready, the balancer's draw, the clock, the outcome of the upstream call, how
  much of an error body can be read, the outcome of saving the success log (its id, or
  \<open>None\<close> for a store error) and the events of the copy.\<close>

record attempt_env =
  a_ctx_done :: bool
  a_timer_seen :: bool
  a_choose_ctx :: bool
  a_draw :: nat
  a_now :: int
  a_chat :: chat_outcome
  a_readall :: "nat option"
  a_save :: "nat option"
  a_copy :: "nat \<Rightarrow> copy_ev"

text \<open>The constructor \<open>providers.New\<close> is not among the sources: whether it fails for a
  style and a configuration is a parameter of the request.\<close>

record request =
  q_New_fails :: "string \<Rightarrow> string \<Rightarrow> bool"
  q_style :: string
  q_before :: before
  q_llmproviders :: "ModelWithProvider list"
  q_providerMap :: "nat \<rightharpoonup> Provider"
  q_MaxRetry :: int
  q_TimeOut :: int
  q_proxyStart :: int
  q_attempts :: "nat \<Rightarrow> attempt_env"

text \<open>\<open>time.Second * time.Duration(TimeOut)\<close>, a signed 64-bit product.\<close>

definition timer_duration :: "int \<Rightarrow> int" where
  "timer_duration t = sint (word_of_int (1000000000 * t) :: 64 word)"

text \<open>
  The selector has a \<open>default\<close> case, so it never waits: it takes a case whose channel is
  ready at the instant it is entered (one of them, chosen by the runtime, when both are)
  and \<open>default\<close> otherwise. The timer channel is made by \<open>time.After\<close> in the selector
  itself, so its timer starts at that instant: with a positive duration it is not ready;
  with a duration of zero or less the runtime may or may not present it as ready
  (\<open>a_timer_seen\<close>).
\<close>

datatype branch = CtxDone | TimerFired | Default

definition attempt_select :: "int \<Rightarrow> attempt_env \<Rightarrow> branch" where
  "attempt_select t e =
     (let timer_ready = (timer_duration t \<le> 0 \<and> a_timer_seen e)
      in if a_ctx_done e \<and> timer_ready then (if a_choose_ctx e then CtxDone else TimerFired)
         else if a_ctx_done e then CtxDone
         else if timer_ready then TimerFired
         else Default)"

fun IndexFunc :: "'a list \<Rightarrow> ('a \<Rightarrow> bool) \<Rightarrow> int" where
  "IndexFunc [] f = - 1"
| "IndexFunc (x # xs) f =
     (if f x then 0 else (let i = IndexFunc xs f in if i < 0 then - 1 else i + 1))"

text \<open>Go's integer division truncates towards zero.\<close>

definition third :: "int \<Rightarrow> int" where
  "third w = (if 0 \<le> w then w div 3 else - ((- w) div 3))"

text \<open>\<open>items[k] -= items[k] / 3\<close>: reading an absent key gives 0, and the assignment
  stores the key.\<close>

definition penalize :: "nat \<Rightarrow> weights \<Rightarrow> weights" where
  "penalize k items =
     (let w = (case map_of items k of None \<Rightarrow> 0 | Some v \<Rightarrow> v) in assign k (w - third w) items)"

record client =
  c_headers :: "(string \<times> string) list"
  c_flushed :: bool
  c_body :: string

definition untouched :: client where
  "untouched = \<lparr>c_headers = [], c_flushed = False, c_body = []\<rparr>"

text \<open>The state of the loop: the weight map, the logs sent on \<open>retryErrLog\<close> so far and,
  as a counter kept for the proofs, how many times the upstream call was made.\<close>

record loop_state =
  items :: weights
  sent :: "ChatLog list"
  calls :: nat

record outcome =
  o_err :: "error option"
  o_sent :: "ChatLog list"
  o_saved :: "(nat \<times> ChatLog) list"
  o_client :: client
  o_pipe :: string
  o_calls :: nat

definition failed :: "error \<Rightarrow> loop_state \<Rightarrow> outcome" where
  "failed err st =
     \<lparr>o_err = Some err, o_sent = sent st, o_saved = [], o_client = untouched,
      o_pipe = [], o_calls = calls st\<rparr>"

datatype step = Next loop_state | Done outcome

text \<open>From the selector to the construction of the adapter: the pick, the lookup of the
  picked id in the mapping slice, the slice access (out of range: a panic), the provider
  lookup (the dereference of a missing provider: a panic) and \<open>providers.New\<close>.\<close>

definition select_mapping :: "request \<Rightarrow> attempt_env \<Rightarrow> loop_state \<Rightarrow> error + (nat \<times> ModelWithProvider \<times> Provider)" where
  "select_mapping rq e st =
     (case attempt_select (q_TimeOut rq) e of
        CtxDone \<Rightarrow> Inl Cancelled
      | TimerFired \<Rightarrow> Inl RetryTimeout
      | Default \<Rightarrow>
          (case WeightedRandom (items st) (a_draw e) of
             Inl err \<Rightarrow> Inl err
           | Inr item \<Rightarrow>
               let modelWithProviderIndex = IndexFunc (q_llmproviders rq) (\<lambda>mp. mp_ID mp = item)
               in if modelWithProviderIndex < 0
                     \<or> int (length (q_llmproviders rq)) \<le> modelWithProviderIndex
                  then Inl PanicIndexOutOfRange
                  else
                    let modelWithProvider = q_llmproviders rq ! nat modelWithProviderIndex
                    in (case q_providerMap rq (mp_ProviderID modelWithProvider) of
                          None \<Rightarrow> Inl PanicNilProvider
                        | Some provider \<Rightarrow>
                            if q_New_fails rq (q_style rq) (p_Config provider)
                            then Inl AdapterInitFailed
                            else Inr (item, modelWithProvider, provider))))"

definition response_headers :: "bool \<Rightarrow> (string \<times> string) list" where
  "response_headers stream =
     (if stream then [(''Content-Type'', ''text/event-stream''), (''Cache-Control'', ''no-cache'')]
      else [(''Content-Type'', ''application/json'')])"

text \<open>From the construction of the log to the end of the iteration: the upstream call
  and the classification of its outcome.\<close>

definition call_and_classify :: "request \<Rightarrow> attempt_env \<Rightarrow> nat \<Rightarrow> loop_state \<Rightarrow> nat \<times> ModelWithProvider \<times> Provider \<Rightarrow> step" where
  "call_and_classify rq e retry st sel =
     (case sel of (item, modelWithProvider, provider) \<Rightarrow>
        let log = \<lparr>cl_Name = b_model (q_before rq),
                   cl_ProviderModel = mp_ProviderModel modelWithProvider,
                   cl_ProviderName = p_Name provider,
                   cl_Status = ''success'',
                   cl_Style = q_style rq,
                   cl_Retry = int retry,
                   cl_ProxyTime = a_now e - q_proxyStart rq,
                   cl_Error = None\<rparr>;
            st1 = st\<lparr>calls := Suc (calls st)\<rparr>
        in (case a_chat e of
              ChatErr msg \<Rightarrow>
                Next (st1\<lparr>sent := sent st1 @ [WithError log (CallError msg)],
                          items := delete_key item (items st1)\<rparr>)
            | ChatResp status body \<Rightarrow>
                if status \<noteq> 200 then
                  let byteBody = (case a_readall e of None \<Rightarrow> body | Some n \<Rightarrow> take n body);
                      st2 = st1\<lparr>sent := sent st1 @ [WithError log (StatusError status byteBody)]\<rparr>
                  in if status = 429
                     then Next (st2\<lparr>items := penalize item (items st2)\<rparr>)
                     else Next (st2\<lparr>items := delete_key item (items st2)\<rparr>)
                else
                  (case a_save e of
                     None \<Rightarrow> Done (failed StoreFailure st1)
                   | Some logId \<Rightarrow>
                       let r = io_Copy (a_copy e) 0 body [] []
                       in Done \<lparr>o_err = (if k_ok r then None else Some CopyFailed),
                                o_sent = sent st1,
                                o_saved = [(logId, log)],
                                o_client = \<lparr>c_headers = response_headers (b_stream (q_before rq)),
                                            c_flushed = True,
                                            c_body = k_client r\<rparr>,
                                o_pipe = k_pipe r,
                                o_calls = calls st1\<rparr>)))"

definition attempt :: "request \<Rightarrow> attempt_env \<Rightarrow> nat \<Rightarrow> loop_state \<Rightarrow> step" where
  "attempt rq e retry st =
     (case select_mapping rq e st of
        Inl err \<Rightarrow> Done (failed err st)
      | Inr sel \<Rightarrow> call_and_classify rq e retry st sel)"

subsection \<open>The loop and the whole of \<open>BalanceChat\<close>\<close>

function dispatch :: "request \<Rightarrow> nat \<Rightarrow> loop_state \<Rightarrow> outcome" where
  "dispatch rq retry st =
     (if int retry < q_MaxRetry rq then
        (case attempt rq (q_attempts rq retry) retry st of
           Next st' \<Rightarrow> dispatch rq (Suc retry) st'
         | Done out \<Rightarrow> out)
      else failed MaxRetriesReached st)"
  by pat_completeness auto
termination
  by (relation "measure (\<lambda>(rq, retry, st). nat (q_MaxRetry rq) - retry)") auto

text \<open>The state in which the loop enters iteration \<open>n\<close>, when it gets there.\<close>

fun state_at :: "request \<Rightarrow> loop_state \<Rightarrow> nat \<Rightarrow> loop_state option" where
  "state_at rq st0 0 = Some st0"
| "state_at rq st0 (Suc n) =
     (case state_at rq st0 n of
        None \<Rightarrow> None
      | Some st \<Rightarrow>
          if int n < q_MaxRetry rq then
            (case attempt rq (q_attempts rq n) n st of Next st' \<Rightarrow> Some st' | Done out \<Rightarrow> None)
          else None)"

text \<open>What the environment of a request decides. \<open>make(chan models.ChatLog, n)\<close>
  panics when \<open>n\<close> is negative and when the buffer of \<open>n\<close> elements is larger than the
  runtime allocates; the largest capacity it allows depends on the size of
  \<open>models.ChatLog\<close>, which is declared outside the sources, and on the platform, so it
  is a parameter (\<open>e_chan_limit\<close>).\<close>

record env =
  e_body :: "string option"
  e_proxyStart :: int
  e_chan_limit :: int
  e_attempts :: "nat \<Rightarrow> attempt_env"

definition start_state :: "weights \<Rightarrow> loop_state" where
  "start_state its = \<lparr>items = its, sent = [], calls = 0\<rparr>"

definition early :: "error \<Rightarrow> outcome" where
  "early err = failed err (start_state [])"

text \<open>\<open>BalanceChat\<close>. The request body is read (\<open>e_body\<close>, \<open>None\<close> for a read error) and
  parsed by the callback \<open>Beforer\<close> (\<open>None\<close> for a parse error). Making the channel with
  a negative capacity, or with one beyond the runtime's limit, panics.\<close>

definition BalanceChat :: "store \<Rightarrow> (string \<Rightarrow> before option) \<Rightarrow> (string \<Rightarrow> string \<Rightarrow> bool) \<Rightarrow> env \<Rightarrow> string \<Rightarrow> outcome" where
  "BalanceChat db Beforer New_fails ev style =
     (case e_body ev of
        None \<Rightarrow> early ReadBodyFailed
      | Some rawData \<Rightarrow>
          (case Beforer rawData of
             None \<Rightarrow> early BadRequest
           | Some bf \<Rightarrow>
               (case ProvidersBymodelsName db (b_model bf) of
                  Inl err \<Rightarrow> early err
                | Inr llmProvidersWithLimit \<Rightarrow>
                    let llmproviders = Providers llmProvidersWithLimit
                    in if length llmproviders = 0 then early NoProviderFound
                       else if fail_providers db then early StoreFailure
                       else
                         let provideritems =
                               load_providers db (map mp_ProviderID llmproviders) style
                         in if length provideritems = 0 then early NoProvidersForStyle
                            else
                              let providerMap = build_providerMap provideritems;
                                  its = build_items bf style providerMap llmproviders []
                              in if length its = 0 then early NoEligibleMapping
                                 else if MaxRetry llmProvidersWithLimit < 0
                                         \<or> e_chan_limit ev < MaxRetry llmProvidersWithLimit
                                 then early PanicChanSize
                                 else dispatch
                                        \<lparr>q_New_fails = New_fails, q_style = style, q_before = bf,
                                         q_llmproviders = llmproviders, q_providerMap = providerMap,
                                         q_MaxRetry = MaxRetry llmProvidersWithLimit,
                                         q_TimeOut = TimeOut llmProvidersWithLimit,
                                         q_proxyStart = e_proxyStart ev,
                                         q_attempts = e_attempts ev\<rparr>
                                        0 (start_state its))))"

subsection \<open>Persisting the logs: the request's goroutine and the log writer\<close>

text \<open>
  \<open>BalanceChat\<close> sends a failed attempt's log on the buffered channel \<open>retryErrLog\<close>
  and goes on; the goroutine started before the loop receives the logs one at a time and
  calls \<open>SaveChatLog\<close> for each. The success log is saved by \<open>BalanceChat\<close> itself.
  The operations of \<open>BalanceChat\<close> on the log store and the channel, in program order,
  are read off the outcome of the run: the sends, then the save.
\<close>

datatype main_op = Send ChatLog | Save ChatLog

definition main_ops :: "outcome \<Rightarrow> main_op list" where
  "main_ops out = map Send (o_sent out) @ map (\<lambda>s. Save (snd s)) (o_saved out)"

record row =
  r_log :: ChatLog
  r_created_at :: int

text \<open>A configuration of the two goroutines: the clock, what \<open>BalanceChat\<close> has still to
  do, the channel's buffer, the log the writer has received and not yet saved, and the
  rows of the log table in the order of their insertion.\<close>

record cfg =
  g_clock :: int
  g_main :: "main_op list"
  g_chan :: "ChatLog list"
  g_writer :: "ChatLog option"
  g_rows :: "row list"

text \<open>Modelled from the spec: the log table and its \<open>created_at\<close> column (the \<open>ChatLog\<close>
  type is declared in the \<open>models\<close> package, which is not among the sources; no code in
  \<open>BalanceChat\<close> sets the field). The store stamps a row with its clock when the row is
  inserted.\<close>

definition insert_row :: "ChatLog \<Rightarrow> cfg \<Rightarrow> cfg" where
  "insert_row l c = c\<lparr>g_rows := g_rows c @ [\<lparr>r_log = l, r_created_at = g_clock c\<rparr>]\<rparr>"

text \<open>The steps of the two goroutines, interleaved in any order, with time passing in
  between. A send needs room in the buffer of capacity \<open>cap\<close>; the writer's save may fail,
  in which case the log is dropped.\<close>

inductive sched :: "nat \<Rightarrow> cfg \<Rightarrow> cfg \<Rightarrow> bool" for cap :: nat where
  tick: "0 \<le> d \<Longrightarrow> sched cap c (c\<lparr>g_clock := g_clock c + d\<rparr>)"
| send: "g_main c = Send l # ops \<Longrightarrow> length (g_chan c) < cap \<Longrightarrow>
         sched cap c (c\<lparr>g_main := ops, g_chan := g_chan c @ [l]\<rparr>)"
| save: "g_main c = Save l # ops \<Longrightarrow> sched cap c (insert_row l (c\<lparr>g_main := ops\<rparr>))"
| recv: "g_writer c = None \<Longrightarrow> g_chan c = l # ls \<Longrightarrow>
         sched cap c (c\<lparr>g_chan := ls, g_writer := Some l\<rparr>)"
| persist: "g_writer c = Some l \<Longrightarrow> sched cap c (insert_row l (c\<lparr>g_writer := None\<rparr>))"
| drop: "g_writer c = Some l \<Longrightarrow> sched cap c (c\<lparr>g_writer := None\<rparr>)"

definition initial :: "int \<Rightarrow> main_op list \<Rightarrow> cfg" where
  "initial t0 ops = \<lparr>g_clock = t0, g_main = ops, g_chan = [], g_writer = None, g_rows = []\<rparr>"

definition is_error_row :: "row \<Rightarrow> bool" where
  "is_error_row r = (cl_Status (r_log r) = ''error'')"

definition is_success_row :: "row \<Rightarrow> bool" where
  "is_success_row r = (cl_Status (r_log r) = ''success'')"

text \<open>The order the spec asks of the rows: no error row is stamped later than a success
  row.\<close>

definition failures_not_after_success :: "row list \<Rightarrow> bool" where
  "failures_not_after_success rows =
     list_all (\<lambda>f. list_all (\<lambda>s. is_error_row f \<and> is_success_row s \<longrightarrow> r_created_at f \<le> r_created_at s) rows) rows"

subsection \<open>Predicates of the proofs\<close>

text \<open>\<open>counted n st\<close>: entering iteration \<open>n\<close>, there have been \<open>n\<close> upstream calls and
  \<open>n\<close> failure logs, with status \<open>error\<close> and the attempt indices in order.
  \<open>tallied m out\<close>: the same account for the outcome of a loop bounded by \<open>m\<close>.\<close>

definition counted :: "nat \<Rightarrow> loop_state \<Rightarrow> bool" where
  "counted n st \<longleftrightarrow> length (sent st) = n \<and> calls st = n
     \<and> list_all (\<lambda>l. cl_Status l = ''error'') (sent st)
     \<and> map cl_Retry (sent st) = map int [0..<n]"

definition tallied :: "int \<Rightarrow> outcome \<Rightarrow> bool" where
  "tallied m out \<longleftrightarrow>
     o_calls out \<le> nat m
     \<and> length (o_sent out) \<le> o_calls out
     \<and> list_all (\<lambda>l. cl_Status l = ''error'') (o_sent out)
     \<and> map cl_Retry (o_sent out) = map int [0..<length (o_sent out)]
     \<and> (if o_err out = Some MaxRetriesReached
         then length (o_sent out) = o_calls out \<and> o_calls out = nat m
         else if o_err out = None \<or> o_err out = Some CopyFailed \<or> o_err out = Some StoreFailure
         then o_calls out = Suc (length (o_sent out))
         else length (o_sent out) = o_calls out \<and> o_calls out < nat m)"

text \<open>\<open>delivered s\<close>: the bytes an iteration has written to the client.
  \<open>capable bf mp\<close>: no capability the request needs is switched off for the mapping.\<close>

definition delivered :: "step \<Rightarrow> string" where
  "delivered s = (case s of Next st \<Rightarrow> [] | Done out \<Rightarrow> c_body (o_client out))"

definition capable :: "before \<Rightarrow> ModelWithProvider \<Rightarrow> bool" where
  "capable bf mp \<longleftrightarrow>
     (b_toolCall bf \<longrightarrow> mp_ToolCall mp \<noteq> Some False)
     \<and> (b_structuredOutput bf \<longrightarrow> mp_StructuredOutput mp \<noteq> Some False)
     \<and> (b_image bf \<longrightarrow> mp_Image mp \<noteq> Some False)"

text \<open>For the interleavings: the logs \<open>BalanceChat\<close> has still to send and to save;
  the failure logs that are on their way (held by the writer, in the buffer, or not yet
  sent), in order; the logs of the error rows, in the order of insertion; and the
  invariant of the interleavings for a request whose failure logs are \<open>fs\<close>: the failure
  logs are those already handled by the writer followed by those on their way, the error
  rows follow the order of the handled ones, the sends of \<open>BalanceChat\<close> come before its
  save, rows are stamped in non-decreasing order and not after the present instant, and
  while a send remains every row is an error row.\<close>

fun sends :: "main_op list \<Rightarrow> ChatLog list" where
  "sends [] = []"
| "sends (Send l # ops) = l # sends ops"
| "sends (Save l # ops) = sends ops"

fun saves :: "main_op list \<Rightarrow> ChatLog list" where
  "saves [] = []"
| "saves (Send l # ops) = saves ops"
| "saves (Save l # ops) = l # saves ops"

definition pending :: "cfg \<Rightarrow> ChatLog list" where
  "pending c = (case g_writer c of None \<Rightarrow> [] | Some l \<Rightarrow> [l]) @ g_chan c @ sends (g_main c)"

definition error_logs :: "row list \<Rightarrow> ChatLog list" where
  "error_logs rows = map r_log (filter is_error_row rows)"

definition log_inv :: "ChatLog list \<Rightarrow> cfg \<Rightarrow> bool" where
  "log_inv fs c \<longleftrightarrow>
     (\<exists>gone. fs = gone @ pending c \<and> subseq (error_logs (g_rows c)) gone)
     \<and> g_main c = map Send (sends (g_main c)) @ map Save (saves (g_main c))
     \<and> list_all (\<lambda>l. cl_Status l = ''success'') (saves (g_main c))
     \<and> sorted (map r_created_at (g_rows c))
     \<and> list_all (\<lambda>r. r_created_at r \<le> g_clock c) (g_rows c)
     \<and> (sends (g_main c) \<noteq> [] \<longrightarrow> list_all is_error_row (g_rows c))"

section \<open>Scenarios\<close>

text \<open>The concrete stores, requests and environments at which the properties are
  evaluated. The pool of the spec's scenarios: mapping 1 at provider A and mapping 2 at
  provider B.\<close>

definition ex_bf :: before where
  "ex_bf = \<lparr>b_model = ''m'', b_stream = False, b_toolCall = False,
            b_structuredOutput = False, b_image = False, b_raw = ''{}''\<rparr>"

definition ex_provA :: Provider where
  "ex_provA = \<lparr>p_ID = 1, p_Name = ''A'', p_Type = ''openai'', p_Config = ''{}'', p_DeletedAt = None\<rparr>"

definition ex_provB :: Provider where
  "ex_provB = \<lparr>p_ID = 2, p_Name = ''B'', p_Type = ''openai'', p_Config = ''{}'', p_DeletedAt = None\<rparr>"

definition ex_mp :: "nat \<Rightarrow> nat \<Rightarrow> int \<Rightarrow> ModelWithProvider" where
  "ex_mp i pid w = \<lparr>mp_ID = i, mp_ModelID = 1, mp_ProviderModel = ''up'', mp_ProviderID = pid,
     mp_ToolCall = None, mp_StructuredOutput = None, mp_Image = None, mp_Weight = w,
     mp_DeletedAt = None\<rparr>"

text \<open>An attempt in which nothing but the upstream call is eventful: the context is
  live, the copy proceeds four bytes at a time, the save returns id 1.\<close>

definition quiet :: "chat_outcome \<Rightarrow> nat \<Rightarrow> attempt_env" where
  "quiet r d = \<lparr>a_ctx_done = False, a_timer_seen = False, a_choose_ctx = False, a_draw = d,
     a_now = 0, a_chat = r, a_readall = None, a_save = Some 1,
     a_copy = (\<lambda>i. \<lparr>c_read = Data 3, c_pipe = None, c_write = None\<rparr>)\<rparr>"

definition ex_rq :: "int \<Rightarrow> (nat \<Rightarrow> attempt_env) \<Rightarrow> request" where
  "ex_rq n atts = \<lparr>q_New_fails = (\<lambda>s c. False), q_style = ''openai'', q_before = ex_bf,
     q_llmproviders = [ex_mp 1 1 6, ex_mp 2 2 3],
     q_providerMap = build_providerMap [ex_provA, ex_provB],
     q_MaxRetry = n, q_TimeOut = 30, q_proxyStart = 0, q_attempts = atts\<rparr>"

definition always :: "chat_outcome \<Rightarrow> nat \<Rightarrow> attempt_env" where
  "always r n = quiet r 0"

definition ex_db :: "int \<Rightarrow> ModelWithProvider list \<Rightarrow> store" where
  "ex_db n mps = \<lparr>tbl_models = [\<lparr>m_ID = 1, m_Name = ''m'', m_MaxRetry = n, m_TimeOut = 30,
                                 m_DeletedAt = None\<rparr>],
     tbl_mappings = mps, tbl_providers = [ex_provA, ex_provB],
     scoped_models = True, scoped_mappings = True, scoped_providers = True,
     fail_models = False, fail_mappings = False, fail_providers = False\<rparr>"

definition ex_env :: "(nat \<Rightarrow> attempt_env) \<Rightarrow> env" where
  "ex_env atts = \<lparr>e_body = Some ''{}'', e_proxyStart = 0, e_chan_limit = 1000000,
     e_attempts = atts\<rparr>"

definition ex_run :: "int \<Rightarrow> ModelWithProvider list \<Rightarrow> (nat \<Rightarrow> attempt_env) \<Rightarrow> outcome" where
  "ex_run n mps atts =
     BalanceChat (ex_db n mps) (\<lambda>raw. Some ex_bf) (\<lambda>s c. False) (ex_env atts) ''openai''"

text \<open>Scenario 6 of the spec: a request with tools, a mapping whose \<open>tool_call\<close> flag
  is false.\<close>

definition ex_bf_tools :: before where
  "ex_bf_tools = ex_bf\<lparr>b_toolCall := True\<rparr>"

definition ex_mp_noTools :: "nat \<Rightarrow> nat \<Rightarrow> int \<Rightarrow> ModelWithProvider" where
  "ex_mp_noTools i pid w = (ex_mp i pid w)\<lparr>mp_ToolCall := Some False\<rparr>"

text \<open>An attempt whose save of the success log fails; a soft-deleted mapping row; a
  store whose mapping and provider rows are not scoped.\<close>

definition save_fails :: "attempt_env \<Rightarrow> attempt_env" where
  "save_fails e = e\<lparr>a_save := None\<rparr>"



text \<open>A model with a timeout of one second: the first attempt fails with status 500,
  the second starts five seconds later and succeeds; in both, a timer channel that is
  ready would be seen as ready.\<close>

definition slow_then_ok :: "nat \<Rightarrow> attempt_env" where
  "slow_then_ok n =
     (if n = 0 then (quiet (ChatResp 500 ''boom'') 0)\<lparr>a_timer_seen := True\<rparr>
      else (quiet (ChatResp 200 ''hello'') 0)\<lparr>a_timer_seen := True, a_now := 5000000000\<rparr>)"

definition ex_rq_1s :: request where
  "ex_rq_1s = (ex_rq 2 slow_then_ok)\<lparr>q_TimeOut := 1\<rparr>"

text \<open>A request whose first attempt fails with status 500 and whose second succeeds; its
  two logs; and a configuration in which the success row is stamped at instant 1 and the
  failure row at instant 2.\<close>

definition fail_then_ok :: "nat \<Rightarrow> attempt_env" where
  "fail_then_ok n =
     (if n = 0 then quiet (ChatResp 500 ''boom'') 0 else quiet (ChatResp 200 ''hello'') 0)"

definition ex_out_retry :: outcome where
  "ex_out_retry = dispatch (ex_rq 3 fail_then_ok) 0 (start_state [(1, 6), (2, 3)])"

definition ex_fail_log :: ChatLog where
  "ex_fail_log = \<lparr>cl_Name = ''m'', cl_ProviderModel = ''up'', cl_ProviderName = ''A'',
     cl_Status = ''error'', cl_Style = ''openai'', cl_Retry = 0, cl_ProxyTime = 0,
     cl_Error = Some (StatusError 500 ''boom'')\<rparr>"

definition ex_ok_log :: ChatLog where
  "ex_ok_log = \<lparr>cl_Name = ''m'', cl_ProviderModel = ''up'', cl_ProviderName = ''B'',
     cl_Status = ''success'', cl_Style = ''openai'', cl_Retry = 1, cl_ProxyTime = 0,
     cl_Error = None\<rparr>"

definition ex_late_rows :: "row list" where
  "ex_late_rows = [\<lparr>r_log = ex_ok_log, r_created_at = 1\<rparr>, \<lparr>r_log = ex_fail_log, r_created_at = 2\<rparr>]"

definition ex_late_cfg :: cfg where
  "ex_late_cfg = \<lparr>g_clock = 2, g_main = [], g_chan = [], g_writer = None, g_rows = ex_late_rows\<rparr>"

text \<open>A request whose first upstream answers 201 with the body \<open>created\<close> and whose
  second answers 200 with the body \<open>hello\<close>. A store whose mapping and provider rows are
  not scoped, in which the only mapping of the model and its provider are soft-deleted.\<close>

definition created_then_ok :: "nat \<Rightarrow> attempt_env" where
  "created_then_ok n =
     (if n = 0 then quiet (ChatResp 201 ''created'') 0 else quiet (ChatResp 200 ''hello'') 0)"



section \<open>Properties\<close>

text \<open>The recursion equations of the two loops are unfolded by hand.\<close>

declare dispatch.simps [simp del]

declare io_Copy.simps [simp del]

subsection \<open>The weight map\<close>

lemma map_of_assign: "map_of (assign k v its) = (map_of its)(k \<mapsto> v)"
  by (induction its) (auto simp: fun_eq_iff)

lemma keys_assign: "fst ` set (assign k v its) = insert k (fst ` set its)"
proof -
  have "dom (map_of (assign k v its)) = insert k (dom (map_of its))"
    by (simp add: map_of_assign)
  then show ?thesis by (simp add: dom_map_of_conv_image_fst)
qed

lemma keys_delete_key: "fst ` set (delete_key k its) = fst ` set its - {k}"
  by (auto simp: delete_key_def image_iff)

lemma third_pos: "1 \<le> w \<Longrightarrow> third w = w div 3"
  by (simp add: third_def)

lemma attempt_Inr:
  "select_mapping rq e st = Inr sel \<Longrightarrow> attempt rq e retry st = call_and_classify rq e retry st sel"
  by (simp add: attempt_def)

lemma timer_duration_30: "timer_duration 30 = 30000000000"
  by (simp add: timer_duration_def)

lemmas ex_defs = ex_db_def ex_env_def ex_bf_def ex_provA_def ex_provB_def ex_mp_def quiet_def
  always_def ex_run_def

lemmas model_defs = BalanceChat_def ProvidersBymodelsName_def First_def Find_def load_providers_def
  build_providerMap_def skipped_def start_state_def early_def failed_def
  attempt_def select_mapping_def attempt_select_def timer_duration_30 WeightedRandom_def
  call_and_classify_def WithError_def delete_key_def penalize_def third_def Let_def

lemmas ex_rq_defs = ex_rq_def ex_bf_def ex_provA_def ex_provB_def ex_mp_def quiet_def always_def

lemma ex_select_first:
  "select_mapping (ex_rq n atts) (quiet r 0) (start_state [(1, 6), (2, 3)])
     = Inr (1, ex_mp 1 1 6, ex_provA)"
  by (simp add: select_mapping_def attempt_select_def quiet_def ex_rq_def start_state_def
      WeightedRandom_def ex_mp_def build_providerMap_def ex_provA_def ex_provB_def
      timer_duration_30)

subsection \<open>Rate limiting\<close>

text \<open>
  C2. When the upstream call of the selected mapping, whose weight \<open>w\<close> is at least 1,
  returns status 429, the attempt ends with \<open>continue\<close>: the mapping stays in the weight
  map with weight \<open>max 1 (w - w div 3)\<close>, and one log with status \<open>error\<close> and the
  attempt's index has been sent on the channel of failure logs.
\<close>

theorem C2_rate_limit_penalty:
  assumes "select_mapping rq e st = Inr (k, mp, p)"
    and "a_chat e = ChatResp 429 body"
    and "map_of (items st) k = Some w"
    and "1 \<le> w"
  shows "\<exists>st' l. attempt rq e retry st = Next st'
           \<and> map_of (items st') k = Some (max 1 (w - w div 3))
           \<and> sent st' = sent st @ [l] \<and> cl_Status l = ''error'' \<and> cl_Retry l = int retry"
proof -
  have "1 \<le> w - w div 3" using assms(4) by linarith
  then have m: "max 1 (w - w div 3) = w - third w"
    using assms(4) by (simp add: third_pos)
  show ?thesis
    using assms(2,3) m
    by (simp add: attempt_Inr [OF assms(1)] call_and_classify_def penalize_def
        map_of_assign WithError_def Let_def)
qed

theorem C2_rate_limit_penalty_witness:
  "select_mapping (ex_rq 3 (always (ChatResp 429 ''slow''))) (quiet (ChatResp 429 ''slow'') 0)
       (start_state [(1, 6), (2, 3)]) = Inr (1, ex_mp 1 1 6, ex_provA)
   \<and> map_of (items (start_state [(1, 6), (2, 3)])) 1 = Some 6
   \<and> (\<exists>st' l. attempt (ex_rq 3 (always (ChatResp 429 ''slow''))) (quiet (ChatResp 429 ''slow'') 0) 0
                 (start_state [(1, 6), (2, 3)]) = Next st'
        \<and> map_of (items st') 1 = Some 4 \<and> sent st' = [l] \<and> cl_Status l = ''error'')"
proof -
  have s: "select_mapping (ex_rq 3 (always (ChatResp 429 ''slow''))) (quiet (ChatResp 429 ''slow'') 0)
       (start_state [(1, 6), (2, 3)]) = Inr (1, ex_mp 1 1 6, ex_provA)"
    by (rule ex_select_first)
  have c: "a_chat (quiet (ChatResp 429 ''slow'') 0) = ChatResp 429 ''slow''"
    by (simp add: quiet_def)
  have w: "map_of (items (start_state [(1, 6), (2, 3)])) 1 = Some 6"
    by (simp add: start_state_def)
  show ?thesis
    using s w C2_rate_limit_penalty [OF s c w, of 0] by (simp add: start_state_def) blast
qed

subsection \<open>Selection and the shape of an iteration\<close>

lemma scan_mem: "scan its acc r = Some k \<Longrightarrow> k \<in> fst ` set its"
  by (induction its acc r rule: scan.induct) (auto split: if_splits)

lemma WeightedRandom_mem: "WeightedRandom its d = Inr k \<Longrightarrow> k \<in> fst ` set its"
  by (auto simp: WeightedRandom_def split: if_splits option.splits dest: scan_mem)

lemma IndexFunc_lower: "- 1 \<le> IndexFunc xs f"
  by (induction xs) (auto simp: Let_def)

lemma IndexFunc_found:
  "\<exists>x \<in> set xs. f x \<Longrightarrow>
     0 \<le> IndexFunc xs f \<and> IndexFunc xs f < int (length xs) \<and> f (xs ! nat (IndexFunc xs f))"
proof (induction xs)
  case Nil
  then show ?case by simp
next
  case (Cons x xs)
  show ?case
  proof (cases "f x")
    case True
    then show ?thesis by simp
  next
    case False
    with Cons.prems have "\<exists>y \<in> set xs. f y" by auto
    from Cons.IH [OF this] False show ?thesis
      by (simp add: Let_def nat_add_distrib)
  qed
qed

lemma IndexFunc_mem:
  "0 \<le> IndexFunc xs f \<Longrightarrow> IndexFunc xs f < int (length xs) \<and> f (xs ! nat (IndexFunc xs f))"
proof (induction xs)
  case Nil
  then show ?case by simp
next
  case (Cons x xs)
  show ?case
  proof (cases "f x")
    case True
    then show ?thesis by simp
  next
    case False
    with Cons.prems have "0 \<le> IndexFunc xs f"
      by (simp add: Let_def split: if_splits)
    from Cons.IH [OF this] False this show ?thesis
      by (simp add: Let_def nat_add_distrib)
  qed
qed

lemma select_mapping_Inr:
  assumes "select_mapping rq e st = Inr (k, mp, p)"
  shows "k \<in> fst ` set (items st) \<and> mp \<in> set (q_llmproviders rq) \<and> mp_ID mp = k
         \<and> q_providerMap rq (mp_ProviderID mp) = Some p
         \<and> WeightedRandom (items st) (a_draw e) = Inr k"
proof -
  from assms obtain item where pick: "WeightedRandom (items st) (a_draw e) = Inr item"
    by (auto simp: select_mapping_def split: branch.splits sum.splits)
  let ?i = "IndexFunc (q_llmproviders rq) (\<lambda>mp. mp_ID mp = item)"
  from assms pick have rng: "0 \<le> ?i" "?i < int (length (q_llmproviders rq))"
    by (auto simp: select_mapping_def Let_def split: branch.splits if_splits)
  from assms pick rng have eqs: "k = item" "mp = q_llmproviders rq ! nat ?i"
    "q_providerMap rq (mp_ProviderID mp) = Some p"
    by (auto simp: select_mapping_def Let_def split: branch.splits if_splits option.splits)
  from IndexFunc_mem [OF rng(1)] have "mp_ID (q_llmproviders rq ! nat ?i) = item" by simp
  moreover from rng have "q_llmproviders rq ! nat ?i \<in> set (q_llmproviders rq)"
    by (intro nth_mem) linarith
  ultimately show ?thesis
    using eqs pick WeightedRandom_mem [OF pick] by simp
qed

lemma select_mapping_errors:
  "select_mapping rq e st = Inl err \<Longrightarrow> err \<noteq> MaxRetriesReached \<and> err \<noteq> StoreFailure \<and> err \<noteq> CopyFailed"
  by (auto simp: select_mapping_def WeightedRandom_def Let_def
      split: branch.splits sum.splits if_splits option.splits)

lemma attempt_Next:
  assumes "attempt rq e retry st = Next st'"
  shows "\<exists>k mp p l. select_mapping rq e st = Inr (k, mp, p)
           \<and> sent st' = sent st @ [l] \<and> cl_Status l = ''error'' \<and> cl_Retry l = int retry
           \<and> calls st' = Suc (calls st)
           \<and> (items st' = delete_key k (items st) \<or> items st' = penalize k (items st))"
proof -
  from assms obtain sel where s: "select_mapping rq e st = Inr sel"
    by (auto simp: attempt_def split: sum.splits)
  obtain k mp p where sel: "sel = (k, mp, p)" by (cases sel)
  from assms s sel have "call_and_classify rq e retry st (k, mp, p) = Next st'"
    by (simp add: attempt_def)
  then show ?thesis
    using s sel
    by (auto simp: call_and_classify_def Let_def WithError_def
        split: chat_outcome.splits if_splits option.splits)
qed

lemma keys_penalize: "k \<in> fst ` set its \<Longrightarrow> fst ` set (penalize k its) = fst ` set its"
  by (auto simp: penalize_def Let_def keys_assign)

lemma attempt_Next_keys:
  assumes "attempt rq e retry st = Next st'"
  shows "fst ` set (items st') \<subseteq> fst ` set (items st)"
proof -
  from attempt_Next [OF assms] obtain k mp p where
    s: "select_mapping rq e st = Inr (k, mp, p)"
    and i: "items st' = delete_key k (items st) \<or> items st' = penalize k (items st)"
    by blast
  from select_mapping_Inr [OF s] have k: "k \<in> fst ` set (items st)" by simp
  from i show ?thesis
  proof
    assume "items st' = delete_key k (items st)"
    then show ?thesis by (simp add: keys_delete_key)
  next
    assume "items st' = penalize k (items st)"
    then show ?thesis by (simp add: keys_penalize [OF k])
  qed
qed

lemma state_at_Suc:
  "state_at rq st0 (Suc n) = Some st' \<Longrightarrow>
     \<exists>st. state_at rq st0 n = Some st \<and> int n < q_MaxRetry rq
          \<and> attempt rq (q_attempts rq n) n st = Next st'"
  by (auto split: option.splits if_splits step.splits)

lemma state_at_keys_mono:
  "i \<le> j \<Longrightarrow> state_at rq st0 i = Some st \<Longrightarrow> state_at rq st0 j = Some st' \<Longrightarrow>
     fst ` set (items st') \<subseteq> fst ` set (items st)"
proof (induction j arbitrary: st')
  case 0
  then show ?case by simp
next
  case (Suc j)
  show ?case
  proof (cases "i = Suc j")
    case True
    with Suc.prems show ?thesis by simp
  next
    case False
    with Suc.prems have le: "i \<le> j" by simp
    from state_at_Suc [OF Suc.prems(3)] obtain s where
      s: "state_at rq st0 j = Some s" and a: "attempt rq (q_attempts rq j) j s = Next st'"
      by blast
    from Suc.IH [OF le Suc.prems(2) s] attempt_Next_keys [OF a] show ?thesis by blast
  qed
qed

subsection \<open>Removal of a failed mapping\<close>

text \<open>
  C3. When the upstream call of attempt \<open>i\<close> ends in an error of the call itself, or in
  a response whose status is neither 429 nor 200 (every status outside 2xx other than 429
  is of this kind), the key of the selected mapping is deleted from the weight map: it is
  absent from the map with which every later iteration \<open>j\<close> of the same request starts,
  hence from every later pick.
\<close>

theorem C3_failed_mapping_removed:
  assumes "state_at rq st0 i = Some st"
    and "select_mapping rq (q_attempts rq i) st = Inr (k, mp, p)"
    and "a_chat (q_attempts rq i) = ChatErr msg
         \<or> (a_chat (q_attempts rq i) = ChatResp s b \<and> s \<noteq> 429 \<and> s \<noteq> 200)"
    and "i < j"
    and "state_at rq st0 j = Some st'"
  shows "k \<notin> fst ` set (items st')"
proof -
  have next_state: "state_at rq st0 (Suc i) = Some s1 \<Longrightarrow> k \<notin> fst ` set (items s1)" for s1
  proof -
    assume r: "state_at rq st0 (Suc i) = Some s1"
    from state_at_Suc [OF r] assms(1)
    have "attempt rq (q_attempts rq i) i st = Next s1" by auto
    then have "call_and_classify rq (q_attempts rq i) i st (k, mp, p) = Next s1"
      by (simp add: attempt_Inr [OF assms(2)])
    with assms(3) have "items s1 = delete_key k (items st)"
      by (auto simp: call_and_classify_def Let_def)
    then show ?thesis by (simp add: keys_delete_key)
  qed
  from assms(4) have le: "Suc i \<le> j" by simp
  have "\<exists>s1. state_at rq st0 (Suc i) = Some s1"
    using le assms(5)
  proof (induction j arbitrary: st')
    case 0
    then show ?case by simp
  next
    case (Suc j)
    show ?case
    proof (cases "Suc i = Suc j")
      case True
      with Suc.prems show ?thesis by auto
    next
      case False
      with Suc.prems have "Suc i \<le> j" by simp
      moreover from state_at_Suc [OF Suc.prems(2)] obtain s where "state_at rq st0 j = Some s"
        by blast
      ultimately show ?thesis using Suc.IH by blast
    qed
  qed
  then obtain s1 where s1: "state_at rq st0 (Suc i) = Some s1" by blast
  from state_at_keys_mono [OF le s1 assms(5)] next_state [OF s1] show ?thesis by blast
qed

theorem C3_failed_mapping_removed_witness:
  "state_at (ex_rq 3 (always (ChatResp 500 ''boom''))) (start_state [(1, 6), (2, 3)]) 0
     = Some (start_state [(1, 6), (2, 3)])
   \<and> select_mapping (ex_rq 3 (always (ChatResp 500 ''boom'')))
         (q_attempts (ex_rq 3 (always (ChatResp 500 ''boom''))) 0) (start_state [(1, 6), (2, 3)])
       = Inr (1, ex_mp 1 1 6, ex_provA)
   \<and> a_chat (q_attempts (ex_rq 3 (always (ChatResp 500 ''boom''))) 0) = ChatResp 500 ''boom''
   \<and> (\<exists>st'. state_at (ex_rq 3 (always (ChatResp 500 ''boom''))) (start_state [(1, 6), (2, 3)]) 1
              = Some st'
            \<and> items st' = [(2, 3)] \<and> 1 \<notin> fst ` set (items st'))"
proof -
  let ?R = "ex_rq 3 (always (ChatResp 500 ''boom''))"
  let ?S = "start_state [(1, 6), (2, 3)]"
  have a: "q_attempts ?R 0 = quiet (ChatResp 500 ''boom'') 0"
    by (simp add: ex_rq_def always_def)
  have r0: "state_at ?R ?S 0 = Some ?S" by simp
  have s: "select_mapping ?R (q_attempts ?R 0) ?S = Inr (1, ex_mp 1 1 6, ex_provA)"
    unfolding a by (rule ex_select_first)
  have c: "a_chat (q_attempts ?R 0) = ChatErr ''x''
        \<or> (a_chat (q_attempts ?R 0) = ChatResp 500 ''boom'' \<and> (500::int) \<noteq> 429 \<and> (500::int) \<noteq> 200)"
    by (simp add: a quiet_def)
  have "\<exists>st'. state_at ?R ?S 1 = Some st' \<and> items st' = [(2, 3)]"
    by (simp add: ex_rq_defs model_defs)
  then obtain st' where r1: "state_at ?R ?S 1 = Some st'" and i: "items st' = [(2, 3)]"
    by blast
  from C3_failed_mapping_removed [OF r0 s c _ r1] have "1 \<notin> fst ` set (items st')" by simp
  with r0 s r1 i show ?thesis by (simp add: a quiet_def)
qed

subsection \<open>Unfolding the loop\<close>

text \<open>An iteration that ends the request either stopped before the upstream call, with
  the error of the selection and nothing changed, or made the call and left the success
  path. The loop's result is the result of the loop continued from any state it reaches.\<close>

lemma attempt_Done:
  assumes "attempt rq e retry st = Done out"
  shows "(\<exists>err. select_mapping rq e st = Inl err \<and> out = failed err st)
       \<or> (\<exists>sel. select_mapping rq e st = Inr sel \<and> o_sent out = sent st
              \<and> o_calls out = Suc (calls st)
              \<and> (o_err out = None \<or> o_err out = Some CopyFailed \<or> o_err out = Some StoreFailure))"
proof (cases "select_mapping rq e st")
  case (Inl err)
  with assms show ?thesis by (simp add: attempt_def)
next
  case (Inr sel)
  with assms have "call_and_classify rq e retry st sel = Done out"
    by (simp add: attempt_def)
  then have "o_sent out = sent st \<and> o_calls out = Suc (calls st)
      \<and> (o_err out = None \<or> o_err out = Some CopyFailed \<or> o_err out = Some StoreFailure)"
    by (cases sel)
       (auto simp: call_and_classify_def Let_def failed_def
        split: chat_outcome.splits if_splits option.splits)
  with Inr show ?thesis by blast
qed

lemma dispatch_unfold_Next:
  "int n < q_MaxRetry rq \<Longrightarrow> attempt rq (q_attempts rq n) n st = Next st' \<Longrightarrow>
     dispatch rq n st = dispatch rq (Suc n) st'"
  by (subst dispatch.simps) simp

lemma dispatch_unfold_Done:
  "int n < q_MaxRetry rq \<Longrightarrow> attempt rq (q_attempts rq n) n st = Done out \<Longrightarrow>
     dispatch rq n st = out"
  by (subst dispatch.simps) simp

lemma dispatch_unfold_end:
  "\<not> int n < q_MaxRetry rq \<Longrightarrow> dispatch rq n st = failed MaxRetriesReached st"
  by (subst dispatch.simps) simp

lemma dispatch_state_at:
  "state_at rq st0 n = Some st \<Longrightarrow> dispatch rq 0 st0 = dispatch rq n st"
proof (induction n arbitrary: st)
  case 0
  then show ?case by simp
next
  case (Suc n)
  from state_at_Suc [OF Suc.prems] obtain s where
    s: "state_at rq st0 n = Some s" and lt: "int n < q_MaxRetry rq"
    and a: "attempt rq (q_attempts rq n) n s = Next st"
    by blast
  from Suc.IH [OF s] dispatch_unfold_Next [OF lt a] show ?case by simp
qed

lemma counted_Next:
  assumes "counted n st" and "attempt rq e n st = Next st'"
  shows "counted (Suc n) st'"
proof -
  from attempt_Next [OF assms(2)] obtain l where
    "sent st' = sent st @ [l]" "cl_Status l = ''error''" "cl_Retry l = int n"
    "calls st' = Suc (calls st)"
    by blast
  with assms(1) show ?thesis by (simp add: counted_def)
qed

lemma dispatch_tallied:
  "counted n st \<Longrightarrow> int n \<le> q_MaxRetry rq \<Longrightarrow> tallied (q_MaxRetry rq) (dispatch rq n st)"
proof (induction rq n st rule: dispatch.induct)
  case (1 rq retry st)
  show ?case
  proof (cases "int retry < q_MaxRetry rq")
    case False
    with "1.prems" have "nat (q_MaxRetry rq) = retry" by simp
    with "1.prems"(1) show ?thesis
      by (simp add: dispatch_unfold_end [OF False] tallied_def failed_def counted_def)
  next
    case True
    show ?thesis
    proof (cases "attempt rq (q_attempts rq retry) retry st")
      case (Next st')
      from counted_Next [OF "1.prems"(1) Next] have c: "counted (Suc retry) st'" .
      from True have "int (Suc retry) \<le> q_MaxRetry rq" by simp
      from "1.IH" [OF True Next c this] show ?thesis
        by (simp add: dispatch_unfold_Next [OF True Next])
    next
      case (Done out)
      from True have lt: "retry < nat (q_MaxRetry rq)" by simp
      from attempt_Done [OF Done] consider
        (stopped) err where "select_mapping rq (q_attempts rq retry) st = Inl err"
          "out = failed err st"
        | (called) "o_sent out = sent st" "o_calls out = Suc (calls st)"
          "o_err out = None \<or> o_err out = Some CopyFailed \<or> o_err out = Some StoreFailure"
        by blast
      then show ?thesis
      proof cases
        case stopped
        from select_mapping_errors [OF stopped(1)] "1.prems"(1) lt stopped(2) show ?thesis
          by (simp add: dispatch_unfold_Done [OF True Done] tallied_def failed_def counted_def)
      next
        case called
        with "1.prems"(1) lt show ?thesis
          by (auto simp: dispatch_unfold_Done [OF True Done] tallied_def counted_def)
      qed
    qed
  qed
qed

lemma dispatch_exit:
  "state_at rq st0 n = Some st \<Longrightarrow> int n \<le> q_MaxRetry rq \<Longrightarrow>
     \<exists>m s. n \<le> m \<and> state_at rq st0 m = Some s
       \<and> (if int m < q_MaxRetry rq
            then attempt rq (q_attempts rq m) m s = Done (dispatch rq n st)
            else dispatch rq n st = failed MaxRetriesReached s)"
proof (induction rq n st rule: dispatch.induct)
  case (1 rq retry st)
  show ?case
  proof (cases "int retry < q_MaxRetry rq")
    case False
    with "1.prems"(1) dispatch_unfold_end [OF False] show ?thesis by auto
  next
    case True
    show ?thesis
    proof (cases "attempt rq (q_attempts rq retry) retry st")
      case (Next st')
      from "1.prems"(1) True Next have r: "state_at rq st0 (Suc retry) = Some st'" by simp
      from True have "int (Suc retry) \<le> q_MaxRetry rq" by simp
      from "1.IH" [OF True Next r this] obtain m s where
        "Suc retry \<le> m" "state_at rq st0 m = Some s"
        "if int m < q_MaxRetry rq
         then attempt rq (q_attempts rq m) m s = Done (dispatch rq (Suc retry) st')
         else dispatch rq (Suc retry) st' = failed MaxRetriesReached s"
        by blast
      then show ?thesis
        using dispatch_unfold_Next [OF True Next] by (intro exI [of _ m] exI [of _ s]) simp
    next
      case (Done out)
      with True "1.prems"(1) dispatch_unfold_Done [OF True Done] show ?thesis
        by (intro exI [of _ retry] exI [of _ st]) simp
    qed
  qed
qed

lemma state_at_counted:
  "counted 0 st0 \<Longrightarrow> state_at rq st0 n = Some st \<Longrightarrow> counted n st"
proof (induction n arbitrary: st)
  case 0
  then show ?case by simp
next
  case (Suc n)
  from state_at_Suc [OF Suc.prems(2)] obtain s where
    s: "state_at rq st0 n = Some s" and a: "attempt rq (q_attempts rq n) n s = Next st"
    by blast
  from counted_Next [OF Suc.IH [OF Suc.prems(1) s] a] show ?case .
qed

lemma counted_start: "counted 0 (start_state its)"
  by (simp add: counted_def start_state_def)

subsection \<open>Attempts, failure logs and the way the loop ends\<close>

text \<open>
  C4, as stated, fails: with the pool \<open>{1, 2}\<close>, \<open>max_retry = 5\<close> and every upstream
  call answering 500, both mappings are deleted after two attempts and the third
  iteration ends with the balancer's error for an empty pool, not with the error for the
  retry bound.
\<close>

theorem C4_counterexample:
  "o_err (ex_run 5 [ex_mp 1 1 1, ex_mp 2 2 1] (always (ChatResp 500 ''boom''))) = Some EmptyPool
   \<and> length (o_sent (ex_run 5 [ex_mp 1 1 1, ex_mp 2 2 1] (always (ChatResp 500 ''boom'')))) = 2"
  by (simp add: ex_defs model_defs dispatch.simps)

text \<open>Which exit the loop takes: the error of the retry bound exactly when the loop gets
  to iteration \<open>max_retry\<close>, the balancer's error for an empty pool exactly when it enters
  an earlier iteration with no channel of the selector ready and the weight map empty.\<close>

lemma select_mapping_EmptyPool_iff:
  "select_mapping rq e st = Inl EmptyPool \<longleftrightarrow>
     attempt_select (q_TimeOut rq) e = Default \<and> items st = []"
  by (auto simp: select_mapping_def WeightedRandom_def Let_def
      split: branch.splits sum.splits if_splits option.splits)

lemma state_at_bound:
  "state_at rq st0 m = Some s \<Longrightarrow> 0 \<le> q_MaxRetry rq \<Longrightarrow> int m \<le> q_MaxRetry rq"
proof (cases m)
  case 0
  then show "0 \<le> q_MaxRetry rq \<Longrightarrow> int m \<le> q_MaxRetry rq" by simp
next
  case (Suc n)
  assume "state_at rq st0 m = Some s"
  with Suc state_at_Suc [of rq st0 n s] show "int m \<le> q_MaxRetry rq" by auto
qed

lemma retry_bound_exit:
  assumes "0 \<le> q_MaxRetry rq"
  shows "o_err (dispatch rq 0 st0) = Some MaxRetriesReached
           \<longleftrightarrow> (\<exists>s. state_at rq st0 (nat (q_MaxRetry rq)) = Some s)"
proof
  assume e: "o_err (dispatch rq 0 st0) = Some MaxRetriesReached"
  have "state_at rq st0 0 = Some st0" by simp
  from dispatch_exit [OF this] assms obtain m s where
    s: "state_at rq st0 m = Some s"
    and x: "if int m < q_MaxRetry rq
            then attempt rq (q_attempts rq m) m s = Done (dispatch rq 0 st0)
            else dispatch rq 0 st0 = failed MaxRetriesReached s"
    by auto
  have "\<not> int m < q_MaxRetry rq"
  proof
    assume "int m < q_MaxRetry rq"
    with x have "attempt rq (q_attempts rq m) m s = Done (dispatch rq 0 st0)" by simp
    from attempt_Done [OF this] e select_mapping_errors [of rq "q_attempts rq m" s]
    show False by (auto simp: failed_def)
  qed
  with state_at_bound [OF s assms] have "m = nat (q_MaxRetry rq)" by simp
  with s show "\<exists>s. state_at rq st0 (nat (q_MaxRetry rq)) = Some s" by blast
next
  assume "\<exists>s. state_at rq st0 (nat (q_MaxRetry rq)) = Some s"
  then obtain s where "state_at rq st0 (nat (q_MaxRetry rq)) = Some s" ..
  from dispatch_state_at [OF this] assms show "o_err (dispatch rq 0 st0) = Some MaxRetriesReached"
    by (simp add: dispatch_unfold_end failed_def)
qed

lemma empty_pool_exit_iff:
  assumes "0 \<le> q_MaxRetry rq"
  shows "o_err (dispatch rq 0 st0) = Some EmptyPool
           \<longleftrightarrow> (\<exists>n s. int n < q_MaxRetry rq \<and> state_at rq st0 n = Some s
                  \<and> attempt_select (q_TimeOut rq) (q_attempts rq n) = Default \<and> items s = [])"
proof
  assume e: "o_err (dispatch rq 0 st0) = Some EmptyPool"
  have "state_at rq st0 0 = Some st0" by simp
  from dispatch_exit [OF this] assms obtain m s where
    s: "state_at rq st0 m = Some s"
    and x: "if int m < q_MaxRetry rq
            then attempt rq (q_attempts rq m) m s = Done (dispatch rq 0 st0)
            else dispatch rq 0 st0 = failed MaxRetriesReached s"
    by auto
  from x e have lt: "int m < q_MaxRetry rq"
    and d: "attempt rq (q_attempts rq m) m s = Done (dispatch rq 0 st0)"
    by (auto simp: failed_def split: if_splits)
  from attempt_Done [OF d] e have "select_mapping rq (q_attempts rq m) s = Inl EmptyPool"
    by (auto simp: failed_def)
  then have "attempt_select (q_TimeOut rq) (q_attempts rq m) = Default \<and> items s = []"
    by (simp add: select_mapping_EmptyPool_iff)
  with lt s show "\<exists>n s. int n < q_MaxRetry rq \<and> state_at rq st0 n = Some s
                  \<and> attempt_select (q_TimeOut rq) (q_attempts rq n) = Default \<and> items s = []"
    by blast
next
  assume "\<exists>n s. int n < q_MaxRetry rq \<and> state_at rq st0 n = Some s
                  \<and> attempt_select (q_TimeOut rq) (q_attempts rq n) = Default \<and> items s = []"
  then obtain n s where lt: "int n < q_MaxRetry rq" and s: "state_at rq st0 n = Some s"
    and sel: "attempt_select (q_TimeOut rq) (q_attempts rq n) = Default \<and> items s = []"
    by blast
  from sel have "select_mapping rq (q_attempts rq n) s = Inl EmptyPool"
    by (simp add: select_mapping_EmptyPool_iff)
  then have "attempt rq (q_attempts rq n) n s = Done (failed EmptyPool s)"
    by (simp add: attempt_def)
  from dispatch_unfold_Done [OF lt this] dispatch_state_at [OF s]
  show "o_err (dispatch rq 0 st0) = Some EmptyPool" by (simp add: failed_def)
qed

text \<open>
  C4, amended. The loop makes at most \<open>max_retry\<close> upstream calls. Every log sent on the
  channel of failure logs has status \<open>error\<close>, and the logs carry the attempt indices
  \<open>0, 1, ...\<close> in order. There is exactly one failure log for each call that did not
  return status 200: on an exit after a 200 response (success, copy error, store error)
  the calls are one more than the logs, on every other exit the logs equal the calls. The
  loop ends with the error of the retry bound exactly when \<open>max_retry\<close> iterations ended
  with \<open>continue\<close>, and then \<open>max_retry\<close> calls were made. It ends with the balancer's error
  for an empty pool exactly when it enters an iteration before the bound with the context
  live, no timer seen and the weight map empty, and then fewer than \<open>max_retry\<close> calls
  were made.
\<close>

theorem C4_logs_per_call_and_exits:
  fixes rq :: request and its :: weights
  defines "out \<equiv> dispatch rq 0 (start_state its)"
  assumes "0 \<le> q_MaxRetry rq"
  shows "o_calls out \<le> nat (q_MaxRetry rq)
       \<and> list_all (\<lambda>l. cl_Status l = ''error'') (o_sent out)
       \<and> map cl_Retry (o_sent out) = map int [0..<length (o_sent out)]
       \<and> (if o_err out = None \<or> o_err out = Some CopyFailed \<or> o_err out = Some StoreFailure
           then o_calls out = Suc (length (o_sent out))
           else length (o_sent out) = o_calls out)
       \<and> ((o_err out = Some MaxRetriesReached)
            = (\<exists>s. state_at rq (start_state its) (nat (q_MaxRetry rq)) = Some s))
       \<and> (o_err out = Some MaxRetriesReached \<longrightarrow> o_calls out = nat (q_MaxRetry rq))
       \<and> ((o_err out = Some EmptyPool)
            = (\<exists>n s. int n < q_MaxRetry rq \<and> state_at rq (start_state its) n = Some s
                 \<and> attempt_select (q_TimeOut rq) (q_attempts rq n) = Default \<and> items s = []))
       \<and> (o_err out = Some EmptyPool \<longrightarrow> o_calls out < nat (q_MaxRetry rq))"
proof -
  have t: "tallied (q_MaxRetry rq) out"
    unfolding out_def using assms(2) by (intro dispatch_tallied counted_start) simp
  have m: "(o_err out = Some MaxRetriesReached)
            = (\<exists>s. state_at rq (start_state its) (nat (q_MaxRetry rq)) = Some s)"
    unfolding out_def by (rule retry_bound_exit [OF assms(2)])
  have e: "(o_err out = Some EmptyPool)
            = (\<exists>n s. int n < q_MaxRetry rq \<and> state_at rq (start_state its) n = Some s
                 \<and> attempt_select (q_TimeOut rq) (q_attempts rq n) = Default \<and> items s = [])"
    unfolding out_def by (rule empty_pool_exit_iff [OF assms(2)])
  have c: "o_calls out \<le> nat (q_MaxRetry rq)"
    and l: "list_all (\<lambda>l. cl_Status l = ''error'') (o_sent out)"
    and r: "map cl_Retry (o_sent out) = map int [0..<length (o_sent out)]"
    using t by (simp_all add: tallied_def)
  have i: "if o_err out = None \<or> o_err out = Some CopyFailed \<or> o_err out = Some StoreFailure
           then o_calls out = Suc (length (o_sent out))
           else length (o_sent out) = o_calls out"
    using t by (auto simp: tallied_def split: if_splits)
  have mx: "o_err out = Some MaxRetriesReached \<longrightarrow> o_calls out = nat (q_MaxRetry rq)"
    using t by (simp add: tallied_def)
  have ex: "o_err out = Some EmptyPool \<longrightarrow> o_calls out < nat (q_MaxRetry rq)"
    using t by (simp add: tallied_def)
  from c l r i m mx e ex show ?thesis by (intro conjI)
qed

theorem C4_logs_per_call_and_exits_witness:
  "0 \<le> q_MaxRetry (ex_rq 2 (always (ChatResp 429 ''slow'')))
   \<and> o_err (dispatch (ex_rq 2 (always (ChatResp 429 ''slow''))) 0 (start_state [(1, 6), (2, 3)]))
       = Some MaxRetriesReached
   \<and> o_calls (dispatch (ex_rq 2 (always (ChatResp 429 ''slow''))) 0 (start_state [(1, 6), (2, 3)])) = 2
   \<and> length (o_sent (dispatch (ex_rq 2 (always (ChatResp 429 ''slow''))) 0
                        (start_state [(1, 6), (2, 3)]))) = 2
   \<and> (\<exists>s. state_at (ex_rq 2 (always (ChatResp 429 ''slow''))) (start_state [(1, 6), (2, 3)]) 2
            = Some s)
   \<and> 0 \<le> q_MaxRetry (ex_rq 5 (always (ChatResp 500 ''boom'')))
   \<and> o_err (dispatch (ex_rq 5 (always (ChatResp 500 ''boom''))) 0 (start_state [(1, 6), (2, 3)]))
       = Some EmptyPool
   \<and> length (o_sent (dispatch (ex_rq 5 (always (ChatResp 500 ''boom''))) 0
                        (start_state [(1, 6), (2, 3)])))
       = o_calls (dispatch (ex_rq 5 (always (ChatResp 500 ''boom''))) 0 (start_state [(1, 6), (2, 3)]))
   \<and> o_calls (dispatch (ex_rq 5 (always (ChatResp 500 ''boom''))) 0 (start_state [(1, 6), (2, 3)]))
       < 5"
proof -
  let ?R = "ex_rq 2 (always (ChatResp 429 ''slow''))"
  let ?out = "dispatch ?R 0 (start_state [(1, 6), (2, 3)])"
  have m: "0 \<le> q_MaxRetry ?R" by (simp add: ex_rq_def)
  have e: "o_err ?out = Some MaxRetriesReached"
    by (simp add: ex_rq_defs model_defs dispatch.simps)
  have q: "nat (q_MaxRetry ?R) = 2" by (simp add: ex_rq_def)
  note T = C4_logs_per_call_and_exits [OF m, of "[(1, 6), (2, 3)]"]
  from T have "if o_err ?out = None \<or> o_err ?out = Some CopyFailed \<or> o_err ?out = Some StoreFailure
           then o_calls ?out = Suc (length (o_sent ?out))
           else length (o_sent ?out) = o_calls ?out"
    by blast
  with e have a: "length (o_sent ?out) = o_calls ?out" by simp
  from T have "o_err ?out = Some MaxRetriesReached \<longrightarrow> o_calls ?out = nat (q_MaxRetry ?R)"
    by blast
  with e q have b: "o_calls ?out = 2" by simp
  from T have "(o_err ?out = Some MaxRetriesReached)
            = (\<exists>s. state_at ?R (start_state [(1, 6), (2, 3)]) (nat (q_MaxRetry ?R)) = Some s)"
    by blast
  with e have "\<exists>s. state_at ?R (start_state [(1, 6), (2, 3)]) (nat (q_MaxRetry ?R)) = Some s"
    by blast
  then have c: "\<exists>s. state_at ?R (start_state [(1, 6), (2, 3)]) 2 = Some s"
    unfolding q .
  let ?R' = "ex_rq 5 (always (ChatResp 500 ''boom''))"
  let ?out' = "dispatch ?R' 0 (start_state [(1, 6), (2, 3)])"
  have m': "0 \<le> q_MaxRetry ?R'" by (simp add: ex_rq_def)
  have e': "o_err ?out' = Some EmptyPool"
    by (simp add: ex_rq_defs model_defs dispatch.simps)
  have q': "nat (q_MaxRetry ?R') = 5" by (simp add: ex_rq_def)
  note T' = C4_logs_per_call_and_exits [OF m', of "[(1, 6), (2, 3)]"]
  from T' have "if o_err ?out' = None \<or> o_err ?out' = Some CopyFailed
                  \<or> o_err ?out' = Some StoreFailure
           then o_calls ?out' = Suc (length (o_sent ?out'))
           else length (o_sent ?out') = o_calls ?out'"
    by blast
  with e' have a': "length (o_sent ?out') = o_calls ?out'" by simp
  from T' have "o_err ?out' = Some EmptyPool \<longrightarrow> o_calls ?out' < nat (q_MaxRetry ?R')"
    by blast
  with e' q' have b': "o_calls ?out' < 5" by simp
  from m e a b c m' e' a' b' show ?thesis by (intro conjI) simp_all
qed

subsection \<open>The keys of the weight map\<close>

lemma keys_build_items:
  "k \<in> fst ` set (build_items bf style pm mps its) \<Longrightarrow>
     k \<in> fst ` set its \<or> k \<in> mp_ID ` set mps"
proof (induction mps arbitrary: its)
  case Nil
  then show ?case by simp
next
  case (Cons mp mps)
  show ?case
  proof (cases "skipped bf style pm mp")
    case True
    with Cons.prems have "k \<in> fst ` set (build_items bf style pm mps its)" by simp
    from Cons.IH [OF this] show ?thesis by auto
  next
    case False
    with Cons.prems
    have "k \<in> fst ` set (build_items bf style pm mps (assign (mp_ID mp) (mp_Weight mp) its))"
      by simp
    from Cons.IH [OF this] show ?thesis by (auto simp: keys_assign)
  qed
qed

lemma keys_build_items_start:
  "fst ` set (build_items bf style pm mps []) \<subseteq> mp_ID ` set mps"
proof
  fix k
  assume "k \<in> fst ` set (build_items bf style pm mps [])"
  from keys_build_items [OF this] show "k \<in> mp_ID ` set mps" by simp
qed

lemma state_at_keys:
  assumes "state_at rq st0 n = Some st"
  shows "fst ` set (items st) \<subseteq> fst ` set (items st0)"
proof -
  have "state_at rq st0 0 = Some st0" by simp
  from state_at_keys_mono [OF _ this assms] show ?thesis by simp
qed

lemma pick_in_range:
  assumes "fst ` set its \<subseteq> mp_ID ` set mps" and "WeightedRandom its d = Inr k"
  shows "0 \<le> IndexFunc mps (\<lambda>mp. mp_ID mp = k) \<and> IndexFunc mps (\<lambda>mp. mp_ID mp = k) < int (length mps)"
proof -
  from WeightedRandom_mem [OF assms(2)] assms(1) have "k \<in> mp_ID ` set mps" by (rule subsetD [rotated])
  then obtain mp where "mp \<in> set mps" and "mp_ID mp = k" by (elim imageE) simp
  then have "\<exists>x \<in> set mps. mp_ID x = k" by (intro bexI)
  from IndexFunc_found [OF this] show ?thesis by (elim conjE) (intro conjI)
qed

lemma select_mapping_no_index_panic:
  assumes "fst ` set (items st) \<subseteq> mp_ID ` set (q_llmproviders rq)"
  shows "select_mapping rq e st \<noteq> Inl PanicIndexOutOfRange"
proof (cases "WeightedRandom (items st) (a_draw e)")
  case (Inl err)
  then have "err \<noteq> PanicIndexOutOfRange"
    by (auto simp: WeightedRandom_def split: if_splits option.splits)
  with Inl show ?thesis
    by (auto simp: select_mapping_def split: branch.splits)
next
  case (Inr k)
  from pick_in_range [OF assms Inr] Inr show ?thesis
    by (auto simp: select_mapping_def Let_def split: branch.splits option.splits)
qed

subsection \<open>The picked id indexes the mapping slice\<close>

text \<open>
  C9. In the state with which any iteration of the loop starts, every key of the weight
  map is the id of an entry of the loaded mapping slice; so for every id the balancer
  returns, \<open>IndexFunc\<close> finds an index within the slice, and the slice access does not
  panic.
\<close>

theorem C9_picked_id_indexes_slice:
  assumes "state_at rq (start_state (build_items bf style pm (q_llmproviders rq) [])) n = Some st"
  shows "fst ` set (items st) \<subseteq> mp_ID ` set (q_llmproviders rq)
       \<and> (\<forall>d k. WeightedRandom (items st) d = Inr k \<longrightarrow>
             0 \<le> IndexFunc (q_llmproviders rq) (\<lambda>mp. mp_ID mp = k)
             \<and> IndexFunc (q_llmproviders rq) (\<lambda>mp. mp_ID mp = k) < int (length (q_llmproviders rq)))
       \<and> (\<forall>e. select_mapping rq e st \<noteq> Inl PanicIndexOutOfRange)"
proof -
  from state_at_keys [OF assms] keys_build_items_start [of bf style pm "q_llmproviders rq"]
  have k: "fst ` set (items st) \<subseteq> mp_ID ` set (q_llmproviders rq)"
    by (simp add: start_state_def)
  from k pick_in_range [OF k] select_mapping_no_index_panic [OF k] show ?thesis by blast
qed

theorem C9_picked_id_indexes_slice_witness:
  "\<exists>st. state_at (ex_rq 3 (always (ChatResp 500 ''boom'')))
          (start_state (build_items ex_bf ''openai'' (build_providerMap [ex_provA, ex_provB])
             (q_llmproviders (ex_rq 3 (always (ChatResp 500 ''boom'')))) [])) 1 = Some st
        \<and> items st = [(2, 3)]
        \<and> fst ` set (items st) \<subseteq> mp_ID ` set (q_llmproviders (ex_rq 3 (always (ChatResp 500 ''boom''))))
        \<and> IndexFunc (q_llmproviders (ex_rq 3 (always (ChatResp 500 ''boom'')))) (\<lambda>mp. mp_ID mp = 2) = 1"
proof -
  let ?R = "ex_rq 3 (always (ChatResp 500 ''boom''))"
  let ?S = "start_state (build_items ex_bf ''openai'' (build_providerMap [ex_provA, ex_provB])
             (q_llmproviders ?R) [])"
  have "\<exists>st. state_at ?R ?S 1 = Some st \<and> items st = [(2, 3)]"
    by (simp add: ex_rq_defs model_defs)
  then obtain st where r: "state_at ?R ?S 1 = Some st" and i: "items st = [(2, 3)]"
    by blast
  have x: "IndexFunc (q_llmproviders ?R) (\<lambda>mp. mp_ID mp = 2) = 1"
    by (simp add: ex_rq_defs)
  from C9_picked_id_indexes_slice [OF r] have "fst ` set (items st) \<subseteq> mp_ID ` set (q_llmproviders ?R)"
    by simp
  with r i x show ?thesis by blast
qed

text \<open>Hence no run of the loop, and no run of \<open>BalanceChat\<close>, ends in the panic of an
  index out of range.\<close>

lemma dispatch_no_index_panic:
  "fst ` set (items st) \<subseteq> mp_ID ` set (q_llmproviders rq) \<Longrightarrow>
     o_err (dispatch rq n st) \<noteq> Some PanicIndexOutOfRange"
proof (induction rq n st rule: dispatch.induct)
  case (1 rq retry st)
  show ?case
  proof (cases "int retry < q_MaxRetry rq")
    case False
    then show ?thesis by (simp add: dispatch_unfold_end failed_def)
  next
    case True
    show ?thesis
    proof (cases "attempt rq (q_attempts rq retry) retry st")
      case (Next st')
      from attempt_Next_keys [OF Next] "1.prems"
      have "fst ` set (items st') \<subseteq> mp_ID ` set (q_llmproviders rq)" by blast
      from "1.IH" [OF True Next this] show ?thesis
        by (simp add: dispatch_unfold_Next [OF True Next])
    next
      case (Done out)
      from attempt_Done [OF Done] select_mapping_no_index_panic [OF "1.prems"]
      show ?thesis
        by (auto simp: dispatch_unfold_Done [OF True Done] failed_def)
    qed
  qed
qed

lemma BalanceChat_no_index_panic:
  "o_err (BalanceChat db Beforer New_fails ev style) \<noteq> Some PanicIndexOutOfRange"
proof -
  have e: "o_err (early err) = Some err" for err
    by (simp add: early_def failed_def)
  have p: "ProvidersBymodelsName db n = Inl err \<Longrightarrow> err \<noteq> PanicIndexOutOfRange" for n err
    by (auto simp: ProvidersBymodelsName_def Let_def split: if_splits option.splits)
  have d: "o_err (dispatch \<lparr>q_New_fails = New_fails, q_style = style, q_before = bf,
              q_llmproviders = mps, q_providerMap = pm, q_MaxRetry = m, q_TimeOut = t,
              q_proxyStart = ps, q_attempts = atts\<rparr> 0
              (start_state (build_items bf style pm mps []))) \<noteq> Some PanicIndexOutOfRange"
    for bf mps pm m t ps atts
    using keys_build_items_start [of bf style pm mps]
    by (intro dispatch_no_index_panic) (simp add: start_state_def)
  show ?thesis
    using p by (auto simp: BalanceChat_def Let_def e d split: option.splits sum.splits)
qed

subsection \<open>The bytes delivered to the client\<close>

lemma io_Copy_prefix:
  "\<exists>d q. k_client (io_Copy ev i rest client pipe) = client @ d
        \<and> k_pipe (io_Copy ev i rest client pipe) = pipe @ q
        \<and> prefix d rest \<and> prefix q rest
        \<and> (k_ok (io_Copy ev i rest client pipe) \<longrightarrow> d = rest \<and> q = rest)"
proof (induction ev i rest client pipe rule: io_Copy.induct)
  case (1 ev i rest client pipe)
  show ?case
  proof (cases "c_read (ev i)")
    case Fail
    then show ?thesis by (subst (1 2 3) io_Copy.simps) simp
  next
    case (Data n)
    show ?thesis
    proof (cases "rest = []")
      case True
      with Data show ?thesis by (subst (1 2 3) io_Copy.simps) simp
    next
      case False
      let ?p = "take (Suc n) rest"
      show ?thesis
      proof (cases "c_write (ev i) \<noteq> None \<or> c_pipe (ev i) \<noteq> None")
        case True
        let ?q = "case c_pipe (ev i) of None \<Rightarrow> ?p | Some m \<Rightarrow> take m ?p"
        have b: "prefix ?q rest"
          by (auto split: option.splits intro: prefix_order.trans take_is_prefix)
        have a: "prefix (case c_write (ev i) of None \<Rightarrow> ?q | Some m \<Rightarrow> take m ?q) rest"
          using b by (auto split: option.splits intro: prefix_order.trans take_is_prefix)
        from Data False True a b show ?thesis
          by (subst (1 2 3) io_Copy.simps) (simp add: Let_def)
      next
        case ok: False
        then have w: "c_write (ev i) = None" and p: "c_pipe (ev i) = None" by simp_all
        let ?r = "io_Copy ev (Suc i) (drop (Suc n) rest) (client @ ?p) (pipe @ ?p)"
        have u: "io_Copy ev i rest client pipe = ?r"
          using Data False w p by (subst io_Copy.simps) (simp add: Let_def)
        from "1.IH" [OF Data False refl refl refl] ok w p
        obtain d q where
          d: "k_client ?r = (client @ ?p) @ d" and q: "k_pipe ?r = (pipe @ ?p) @ q"
          and pd: "prefix d (drop (Suc n) rest)" and pq: "prefix q (drop (Suc n) rest)"
          and fin: "k_ok ?r \<longrightarrow> d = drop (Suc n) rest \<and> q = drop (Suc n) rest"
          by auto
        have "prefix (?p @ d) rest" "prefix (?p @ q) rest"
          using pd pq by (metis append_take_drop_id same_prefix_prefix)+
        moreover have "k_ok ?r \<longrightarrow> ?p @ d = rest \<and> ?p @ q = rest"
          using fin by (metis append_take_drop_id)
        ultimately show ?thesis
          unfolding u using d q by (intro exI [of _ "?p @ d"] exI [of _ "?p @ q"]) simp
      qed
    qed
  qed
qed

text \<open>
  In an attempt whose upstream call returns a 2xx status, the bytes the attempt writes to
  the client are a prefix of the body of that response; when the attempt ends the request
  without error, they are the whole body, in order, and the accounting side of the tee
  has received the same bytes. Only status 200 is forwarded: an attempt with another 2xx
  status writes nothing to the client and ends with \<open>continue\<close>.
\<close>

lemma attempt_client_bytes:
  assumes "select_mapping rq e st = Inr sel"
    and "a_chat e = ChatResp s body"
    and "200 \<le> s" and "s < 300"
  shows "prefix (delivered (attempt rq e retry st)) body
       \<and> (\<forall>out. attempt rq e retry st = Done out \<and> o_err out = None \<longrightarrow>
             c_body (o_client out) = body \<and> o_pipe out = body)"
proof -
  obtain k mp p where sel: "sel = (k, mp, p)" by (cases sel)
  from io_Copy_prefix [of "a_copy e" 0 body "[]" "[]"] obtain d where
    c: "k_client (io_Copy (a_copy e) 0 body [] []) = d"
    and pd: "prefix d body"
    and fin: "k_ok (io_Copy (a_copy e) 0 body [] []) \<longrightarrow>
                d = body \<and> k_pipe (io_Copy (a_copy e) 0 body [] []) = body"
    by auto
  show ?thesis
  proof (cases "s = 200")
    case False
    with assms(2) show ?thesis
      by (simp add: attempt_Inr [OF assms(1)] sel call_and_classify_def Let_def delivered_def)
  next
    case True
    show ?thesis
    proof (cases "a_save e")
      case None
      with True assms(2) show ?thesis
        by (simp add: attempt_Inr [OF assms(1)] sel call_and_classify_def Let_def delivered_def
            failed_def untouched_def)
    next
      case (Some logId)
      with True assms(2) c pd fin show ?thesis
        by (auto simp: attempt_Inr [OF assms(1)] sel call_and_classify_def Let_def delivered_def)
    qed
  qed
qed

text \<open>
  C1, as stated, fails for a 2xx status other than 200: the first upstream selected for
  the request answers 201 with the body \<open>created\<close>; that counts as a failure, the second
  upstream answers 200 with the body \<open>hello\<close>, and the client receives \<open>hello\<close>, which is
  not a prefix of the first upstream's response.
\<close>

theorem C1_counterexample:
  "a_chat (created_then_ok 0) = ChatResp 201 ''created''
   \<and> map cl_Error (o_sent (ex_run 3 [ex_mp 1 1 6, ex_mp 2 2 3] created_then_ok))
       = [Some (StatusError 201 ''created'')]
   \<and> o_err (ex_run 3 [ex_mp 1 1 6, ex_mp 2 2 3] created_then_ok) = None
   \<and> c_body (o_client (ex_run 3 [ex_mp 1 1 6, ex_mp 2 2 3] created_then_ok)) = ''hello''
   \<and> \<not> prefix (c_body (o_client (ex_run 3 [ex_mp 1 1 6, ex_mp 2 2 3] created_then_ok))) ''created''"
  by (simp add: created_then_ok_def ex_defs model_defs dispatch.simps io_Copy.simps)

text \<open>
  C1, amended to status 200. When the loop reaches an iteration whose upstream call
  returns status 200, the bytes the request delivers to the client are a prefix of the
  body of that response; when the request ends without error they are the whole body, in
  order, and the accounting side of the tee has received the same bytes.
\<close>

theorem C1_request_client_bytes:
  assumes "state_at rq st0 n = Some st"
    and "int n < q_MaxRetry rq"
    and "select_mapping rq (q_attempts rq n) st = Inr sel"
    and "a_chat (q_attempts rq n) = ChatResp 200 body"
  shows "prefix (c_body (o_client (dispatch rq 0 st0))) body
       \<and> (o_err (dispatch rq 0 st0) = None \<longrightarrow>
             c_body (o_client (dispatch rq 0 st0)) = body \<and> o_pipe (dispatch rq 0 st0) = body)"
proof -
  obtain k mp p where sel: "sel = (k, mp, p)" by (cases sel)
  have "\<exists>out. attempt rq (q_attempts rq n) n st = Done out"
    using assms(4)
    by (simp add: attempt_Inr [OF assms(3)] sel call_and_classify_def Let_def split: option.splits)
  then obtain out where d: "attempt rq (q_attempts rq n) n st = Done out" ..
  from dispatch_unfold_Done [OF assms(2) d] dispatch_state_at [OF assms(1)]
  have o: "dispatch rq 0 st0 = out" by simp
  from attempt_client_bytes [OF assms(3,4), of n] d show ?thesis
    by (simp add: o delivered_def)
qed

theorem C1_request_client_bytes_witness:
  "(\<exists>st. state_at (ex_rq 3 created_then_ok) (start_state [(1, 6), (2, 3)]) 1 = Some st
         \<and> select_mapping (ex_rq 3 created_then_ok) (q_attempts (ex_rq 3 created_then_ok) 1) st
             = Inr (2, ex_mp 2 2 3, ex_provB))
   \<and> a_chat (q_attempts (ex_rq 3 created_then_ok) 1) = ChatResp 200 ''hello''
   \<and> o_err (dispatch (ex_rq 3 created_then_ok) 0 (start_state [(1, 6), (2, 3)])) = None
   \<and> c_body (o_client (dispatch (ex_rq 3 created_then_ok) 0 (start_state [(1, 6), (2, 3)]))) = ''hello''
   \<and> o_pipe (dispatch (ex_rq 3 created_then_ok) 0 (start_state [(1, 6), (2, 3)])) = ''hello''"
proof -
  let ?R = "ex_rq 3 created_then_ok"
  let ?S = "start_state [(1, 6), (2, 3)]"
  have "\<exists>st. state_at ?R ?S 1 = Some st
         \<and> select_mapping ?R (q_attempts ?R 1) st = Inr (2, ex_mp 2 2 3, ex_provB)"
    by (simp add: created_then_ok_def ex_rq_defs model_defs)
  then obtain st where r: "state_at ?R ?S 1 = Some st"
    and s: "select_mapping ?R (q_attempts ?R 1) st = Inr (2, ex_mp 2 2 3, ex_provB)"
    by blast
  have m: "int 1 < q_MaxRetry ?R" by (simp add: ex_rq_def)
  have c: "a_chat (q_attempts ?R 1) = ChatResp 200 ''hello''"
    by (simp add: ex_rq_def created_then_ok_def quiet_def)
  have e: "o_err (dispatch ?R 0 ?S) = None"
    by (simp add: created_then_ok_def ex_rq_defs model_defs dispatch.simps io_Copy.simps)
  from C1_request_client_bytes [OF r m s c] e
  have "c_body (o_client (dispatch ?R 0 ?S)) = ''hello'' \<and> o_pipe (dispatch ?R 0 ?S) = ''hello''"
    by simp
  with r s c e show ?thesis by blast
qed
subsection \<open>A store failure on the success path\<close>

text \<open>
  C10. When iteration \<open>n\<close> is reached, its upstream call returns status 200 (the only
  status for which the success log is saved) and saving the success log fails,
  \<open>BalanceChat\<close> returns the store's error at once: no header is set, nothing is flushed,
  no byte reaches the client or the accounting pipe, and no success row exists.
\<close>

theorem C10_store_failure_before_response:
  assumes "state_at rq st0 n = Some st"
    and "int n < q_MaxRetry rq"
    and "select_mapping rq (q_attempts rq n) st = Inr sel"
    and "a_chat (q_attempts rq n) = ChatResp 200 body"
    and "a_save (q_attempts rq n) = None"
  shows "o_err (dispatch rq 0 st0) = Some StoreFailure
       \<and> o_client (dispatch rq 0 st0) = untouched
       \<and> o_pipe (dispatch rq 0 st0) = []
       \<and> o_saved (dispatch rq 0 st0) = []
       \<and> o_sent (dispatch rq 0 st0) = sent st"
proof -
  obtain k mp p where sel: "sel = (k, mp, p)" by (cases sel)
  have "attempt rq (q_attempts rq n) n st = Done (failed StoreFailure (st\<lparr>calls := Suc (calls st)\<rparr>))"
    using assms(4,5)
    by (simp add: attempt_Inr [OF assms(3)] sel call_and_classify_def Let_def)
  from dispatch_unfold_Done [OF assms(2) this] dispatch_state_at [OF assms(1)]
  show ?thesis by (simp add: failed_def)
qed

theorem C10_store_failure_before_response_witness:
  "state_at (ex_rq 3 (\<lambda>n. save_fails (quiet (ChatResp 200 ''hello'') 0))) (start_state [(1, 6), (2, 3)]) 0
     = Some (start_state [(1, 6), (2, 3)])
   \<and> a_save (q_attempts (ex_rq 3 (\<lambda>n. save_fails (quiet (ChatResp 200 ''hello'') 0))) 0) = None
   \<and> o_err (dispatch (ex_rq 3 (\<lambda>n. save_fails (quiet (ChatResp 200 ''hello'') 0))) 0
              (start_state [(1, 6), (2, 3)])) = Some StoreFailure
   \<and> c_body (o_client (dispatch (ex_rq 3 (\<lambda>n. save_fails (quiet (ChatResp 200 ''hello'') 0))) 0
              (start_state [(1, 6), (2, 3)]))) = []
   \<and> c_headers (o_client (dispatch (ex_rq 3 (\<lambda>n. save_fails (quiet (ChatResp 200 ''hello'') 0))) 0
              (start_state [(1, 6), (2, 3)]))) = []"
proof -
  let ?R = "ex_rq 3 (\<lambda>n. save_fails (quiet (ChatResp 200 ''hello'') 0))"
  let ?S = "start_state [(1, 6), (2, 3)]"
  have r: "state_at ?R ?S 0 = Some ?S" by simp
  have m: "int 0 < q_MaxRetry ?R" by (simp add: ex_rq_def)
  have s: "select_mapping ?R (q_attempts ?R 0) ?S = Inr (1, ex_mp 1 1 6, ex_provA)"
    by (simp add: ex_rq_defs model_defs save_fails_def)
  have c: "a_chat (q_attempts ?R 0) = ChatResp 200 ''hello''"
    by (simp add: ex_rq_def save_fails_def quiet_def)
  have f: "a_save (q_attempts ?R 0) = None"
    by (simp add: ex_rq_def save_fails_def)
  from C10_store_failure_before_response [OF r m s c f] r f show ?thesis
    by (simp add: untouched_def)
qed

subsection \<open>Pool resolution\<close>

text \<open>The provider map holds a provider for an id exactly when a provider with that id
  was loaded; the filter keeps a mapping exactly when it is capable and its provider is in
  the map with the request's style.\<close>

lemma build_providerMap_Nil: "build_providerMap [] = Map.empty"
  by (simp add: build_providerMap_def)

lemma build_providerMap_snoc:
  "build_providerMap (ps @ [p]) = (build_providerMap ps)(p_ID p \<mapsto> p)"
  by (simp add: build_providerMap_def)

lemma build_providerMap_Some:
  "build_providerMap ps k = Some p \<Longrightarrow> p \<in> set ps \<and> p_ID p = k"
proof (induction ps rule: rev_induct)
  case Nil
  then show ?case by (simp add: build_providerMap_Nil)
next
  case (snoc x xs)
  show ?case
  proof (cases "k = p_ID x")
    case True
    with snoc.prems show ?thesis by (simp add: build_providerMap_snoc)
  next
    case False
    with snoc.prems have "build_providerMap xs k = Some p" by (simp add: build_providerMap_snoc)
    from snoc.IH [OF this] show ?thesis by simp
  qed
qed

lemma build_providerMap_found:
  "p \<in> set ps \<Longrightarrow> \<exists>p'. build_providerMap ps (p_ID p) = Some p'"
proof (induction ps rule: rev_induct)
  case Nil
  then show ?case by simp
next
  case (snoc x xs)
  show ?case
  proof (cases "p_ID p = p_ID x")
    case True
    then show ?thesis by (simp add: build_providerMap_snoc)
  next
    case False
    with snoc.prems have "p \<in> set xs" by auto
    from snoc.IH [OF this] False show ?thesis by (simp add: build_providerMap_snoc)
  qed
qed

lemma build_providerMap_defined:
  "(\<exists>p. build_providerMap ps k = Some p) \<longleftrightarrow> (\<exists>p \<in> set ps. p_ID p = k)"
proof
  assume "\<exists>p. build_providerMap ps k = Some p"
  then obtain p where "build_providerMap ps k = Some p" ..
  from build_providerMap_Some [OF this] show "\<exists>p \<in> set ps. p_ID p = k" by blast
next
  assume "\<exists>p \<in> set ps. p_ID p = k"
  then obtain p where "p \<in> set ps" and "p_ID p = k" by blast
  with build_providerMap_found [of p ps] show "\<exists>p. build_providerMap ps k = Some p" by simp
qed

lemma load_providers_mem:
  "p \<in> set (load_providers db ids style) \<Longrightarrow>
     p \<in> set (tbl_providers db) \<and> p_ID p \<in> set ids \<and> p_Type p = style
     \<and> (scoped_providers db \<longrightarrow> p_DeletedAt p = None)"
  by (simp add: load_providers_def Find_def)

lemma skipped_iff:
  "skipped bf style pm mp \<longleftrightarrow>
     \<not> (capable bf mp \<and> (\<exists>p. pm (mp_ProviderID mp) = Some p \<and> p_Type p = style))"
  by (cases "mp_ToolCall mp"; cases "mp_StructuredOutput mp"; cases "mp_Image mp")
     (auto simp: skipped_def capable_def split: option.splits)

lemma skipped_loaded:
  "skipped bf style (build_providerMap (load_providers db ids style)) mp \<longleftrightarrow>
     \<not> (capable bf mp \<and> (\<exists>p \<in> set (load_providers db ids style). p_ID p = mp_ProviderID mp))"
proof -
  let ?ps = "load_providers db ids style"
  have t: "build_providerMap ?ps k = Some p \<Longrightarrow> p_Type p = style" for k p
    using build_providerMap_Some [of ?ps k p] load_providers_mem [of p db ids style] by simp
  have "(\<exists>p. build_providerMap ?ps (mp_ProviderID mp) = Some p \<and> p_Type p = style)
        \<longleftrightarrow> (\<exists>p. build_providerMap ?ps (mp_ProviderID mp) = Some p)"
    using t by blast
  then show ?thesis by (simp add: skipped_iff build_providerMap_defined)
qed

lemma build_items_other:
  "k \<notin> mp_ID ` set mps \<Longrightarrow> map_of (build_items bf style pm mps its) k = map_of its k"
  by (induction mps arbitrary: its) (auto simp: map_of_assign)

lemma build_items_lookup:
  "distinct (map mp_ID mps) \<Longrightarrow> mp \<in> set mps \<Longrightarrow>
     map_of (build_items bf style pm mps its) (mp_ID mp)
       = (if skipped bf style pm mp then map_of its (mp_ID mp) else Some (mp_Weight mp))"
proof (induction mps arbitrary: its)
  case Nil
  then show ?case by simp
next
  case (Cons x xs)
  show ?case
  proof (cases "mp = x")
    case True
    from Cons.prems(1) have "mp_ID x \<notin> mp_ID ` set xs" by simp
    from build_items_other [OF this] True show ?thesis by (simp add: map_of_assign)
  next
    case False
    with Cons.prems have m: "mp \<in> set xs" and d: "distinct (map mp_ID xs)" by simp_all
    from m Cons.prems(1) have ne: "mp_ID x \<noteq> mp_ID mp" by auto
    from Cons.IH [OF d m] ne show ?thesis by (simp add: map_of_assign)
  qed
qed

lemma BalanceChat_resolved:
  assumes "e_body ev = Some raw" and "Beforer raw = Some bf"
    and "ProvidersBymodelsName db (b_model bf) = Inr lim"
    and "\<not> fail_providers db"
    and "load_providers db (map mp_ProviderID (Providers lim)) style \<noteq> []"
    and "build_items bf style
           (build_providerMap (load_providers db (map mp_ProviderID (Providers lim)) style))
           (Providers lim) [] = []"
  shows "BalanceChat db Beforer New_fails ev style = early NoEligibleMapping"
proof -
  from assms(3) have "Providers lim \<noteq> []"
    by (auto simp: ProvidersBymodelsName_def Let_def split: if_splits option.splits)
  with assms show ?thesis by (simp add: BalanceChat_def Let_def)
qed

text \<open>
  C6. For a mapping \<open>mp\<close> of the loaded slice (mapping ids are a primary key), its id is a
  key of the weight map, with its weight, if and only if a provider with its provider id
  was loaded (every loaded provider has the request's style) and no capability that the
  request needs is explicitly false for it; and when providers were loaded but the weight
  map is empty after the filter, \<open>BalanceChat\<close> returns the error for no eligible mapping.
\<close>

theorem C6_pool_resolution:
  fixes db :: store and bf :: before and style :: string
    and llmproviders :: "ModelWithProvider list"
  defines "provideritems \<equiv> load_providers db (map mp_ProviderID llmproviders) style"
  defines "its \<equiv> build_items bf style (build_providerMap provideritems) llmproviders []"
  assumes "distinct (map mp_ID llmproviders)" and "mp \<in> set llmproviders"
  shows "((map_of its (mp_ID mp) = Some (mp_Weight mp)) =
            ((\<exists>p \<in> set provideritems. p_ID p = mp_ProviderID mp \<and> p_Type p = style)
             \<and> (b_toolCall bf \<longrightarrow> mp_ToolCall mp \<noteq> Some False)
             \<and> (b_structuredOutput bf \<longrightarrow> mp_StructuredOutput mp \<noteq> Some False)
             \<and> (b_image bf \<longrightarrow> mp_Image mp \<noteq> Some False)))
       \<and> ((mp_ID mp \<in> fst ` set its) = (map_of its (mp_ID mp) = Some (mp_Weight mp)))
       \<and> (e_body ev = Some raw \<and> Beforer raw = Some bf
            \<and> ProvidersBymodelsName db (b_model bf) = Inr lim \<and> Providers lim = llmproviders
            \<and> \<not> fail_providers db \<and> provideritems \<noteq> [] \<and> its = [] \<longrightarrow>
            BalanceChat db Beforer New_fails ev style = early NoEligibleMapping)"
proof -
  let ?pm = "build_providerMap provideritems"
  have look: "map_of its (mp_ID mp) = (if skipped bf style ?pm mp then None else Some (mp_Weight mp))"
    unfolding its_def using build_items_lookup [OF assms(3,4), of bf style ?pm "[]"] by simp
  have styled: "p \<in> set provideritems \<Longrightarrow> p_Type p = style" for p
    unfolding provideritems_def using load_providers_mem [of p db _ style] by simp
  have keep: "\<not> skipped bf style ?pm mp \<longleftrightarrow>
      ((\<exists>p \<in> set provideritems. p_ID p = mp_ProviderID mp \<and> p_Type p = style)
       \<and> (b_toolCall bf \<longrightarrow> mp_ToolCall mp \<noteq> Some False)
       \<and> (b_structuredOutput bf \<longrightarrow> mp_StructuredOutput mp \<noteq> Some False)
       \<and> (b_image bf \<longrightarrow> mp_Image mp \<noteq> Some False))"
    unfolding provideritems_def using styled
    by (auto simp: skipped_loaded capable_def provideritems_def)
  have first: "(map_of its (mp_ID mp) = Some (mp_Weight mp)) =
            ((\<exists>p \<in> set provideritems. p_ID p = mp_ProviderID mp \<and> p_Type p = style)
             \<and> (b_toolCall bf \<longrightarrow> mp_ToolCall mp \<noteq> Some False)
             \<and> (b_structuredOutput bf \<longrightarrow> mp_StructuredOutput mp \<noteq> Some False)
             \<and> (b_image bf \<longrightarrow> mp_Image mp \<noteq> Some False))"
    unfolding look using keep by (cases "skipped bf style ?pm mp") simp_all
  have second: "(mp_ID mp \<in> fst ` set its) = (map_of its (mp_ID mp) = Some (mp_Weight mp))"
  proof -
    have "(mp_ID mp \<in> fst ` set its) = (map_of its (mp_ID mp) \<noteq> None)"
      by (simp add: dom_map_of_conv_image_fst [symmetric] domIff)
    then show ?thesis by (simp add: look)
  qed
  have third: "BalanceChat db Beforer New_fails ev style = early NoEligibleMapping"
    if "e_body ev = Some raw" "Beforer raw = Some bf"
      "ProvidersBymodelsName db (b_model bf) = Inr lim" "Providers lim = llmproviders"
      "\<not> fail_providers db" "provideritems \<noteq> []" "its = []"
    using that BalanceChat_resolved [of ev raw Beforer bf db lim style New_fails]
    by (simp add: provideritems_def its_def)
  from first second third show ?thesis by blast
qed

lemmas ex6_defs = ex_bf_tools_def ex_mp_noTools_def ex_defs

theorem C6_pool_resolution_witness:
  "distinct (map mp_ID [ex_mp_noTools 1 1 6, ex_mp 2 2 3])
   \<and> map_of (build_items ex_bf_tools ''openai''
        (build_providerMap (load_providers (ex_db 3 [ex_mp_noTools 1 1 6, ex_mp 2 2 3])
           (map mp_ProviderID [ex_mp_noTools 1 1 6, ex_mp 2 2 3]) ''openai''))
        [ex_mp_noTools 1 1 6, ex_mp 2 2 3] []) 2 = Some 3
   \<and> 1 \<notin> fst ` set (build_items ex_bf_tools ''openai''
        (build_providerMap (load_providers (ex_db 3 [ex_mp_noTools 1 1 6, ex_mp 2 2 3])
           (map mp_ProviderID [ex_mp_noTools 1 1 6, ex_mp 2 2 3]) ''openai''))
        [ex_mp_noTools 1 1 6, ex_mp 2 2 3] [])
   \<and> BalanceChat (ex_db 3 [ex_mp_noTools 1 1 6]) (\<lambda>raw. Some ex_bf_tools) (\<lambda>s c. False)
         (ex_env (always (ChatResp 200 ''hello''))) ''openai'' = early NoEligibleMapping"
proof -
  let ?mps = "[ex_mp_noTools 1 1 6, ex_mp 2 2 3]"
  let ?db = "ex_db 3 ?mps"
  let ?db1 = "ex_db 3 [ex_mp_noTools 1 1 6]"
  let ?ev = "ex_env (always (ChatResp 200 ''hello''))"
  let ?lim = "\<lparr>Providers = [ex_mp_noTools 1 1 6], MaxRetry = 3, TimeOut = 30\<rparr>"
  have d: "distinct (map mp_ID ?mps)" by (simp add: ex6_defs)
  have d1: "distinct (map mp_ID [ex_mp_noTools 1 1 6])" by simp
  have kept: "map_of (build_items ex_bf_tools ''openai''
        (build_providerMap (load_providers ?db (map mp_ProviderID ?mps) ''openai'')) ?mps []) 2 = Some 3"
    using C6_pool_resolution [OF d, where mp = "ex_mp 2 2 3" and bf = ex_bf_tools and db = ?db
        and style = "''openai''"]
    by (simp add: ex6_defs load_providers_def Find_def)
  have dropped: "1 \<notin> fst ` set (build_items ex_bf_tools ''openai''
        (build_providerMap (load_providers ?db (map mp_ProviderID ?mps) ''openai'')) ?mps [])"
    using C6_pool_resolution [OF d, where mp = "ex_mp_noTools 1 1 6" and bf = ex_bf_tools
        and db = ?db and style = "''openai''"]
    by (simp add: ex6_defs load_providers_def Find_def)
  have none: "BalanceChat ?db1 (\<lambda>raw. Some ex_bf_tools) (\<lambda>s c. False) ?ev ''openai''
        = early NoEligibleMapping"
    using C6_pool_resolution [OF d1, where mp = "ex_mp_noTools 1 1 6" and bf = ex_bf_tools
        and db = ?db1 and style = "''openai''" and ev = ?ev and raw = "''{}''"
        and Beforer = "\<lambda>raw. Some ex_bf_tools" and lim = ?lim and New_fails = "\<lambda>s c. False"]
    by (simp add: ex6_defs model_defs)
  from d kept dropped none show ?thesis by simp
qed

subsection \<open>Soft-deleted rows\<close>

lemma least_by_mem: "least_by key b rs \<in> set (b # rs)"
  by (induction rs arbitrary: b) (auto split: if_splits)

lemma First_Some:
  "First scoped deleted key conds rows = Some r \<Longrightarrow>
     r \<in> set rows \<and> conds r \<and> (scoped \<longrightarrow> deleted r = None)"
proof -
  assume a: "First scoped deleted key conds rows = Some r"
  then obtain x xs where f: "Find scoped deleted conds rows = x # xs" and r: "r = least_by key x xs"
    by (auto simp: First_def split: list.splits)
  from least_by_mem [of key x xs] f r have "r \<in> set (Find scoped deleted conds rows)" by simp
  then show ?thesis by (simp add: Find_def)
qed

lemma ProvidersBymodelsName_Inr:
  assumes "ProvidersBymodelsName db name = Inr lim"
  shows "\<exists>m \<in> set (tbl_models db). m_Name m = name \<and> m_DeletedAt m = None
            \<and> MaxRetry lim = m_MaxRetry m \<and> TimeOut lim = m_TimeOut m
            \<and> Providers lim = Find (scoped_mappings db) mp_DeletedAt
                                 (\<lambda>mp. mp_ModelID mp = m_ID m) (tbl_mappings db)"
proof -
  from assms obtain m where
    f: "First (scoped_models db) m_DeletedAt m_ID
          (\<lambda>m. m_Name m = name \<and> m_DeletedAt m = None) (tbl_models db) = Some m"
    by (auto simp: ProvidersBymodelsName_def split: if_splits option.splits)
  from assms f have "MaxRetry lim = m_MaxRetry m \<and> TimeOut lim = m_TimeOut m
      \<and> Providers lim = Find (scoped_mappings db) mp_DeletedAt
                           (\<lambda>mp. mp_ModelID mp = m_ID m) (tbl_mappings db)"
    by (auto simp: ProvidersBymodelsName_def Let_def split: if_splits)
  with First_Some [OF f] show ?thesis by blast
qed

text \<open>
  The model lookup excludes soft-deleted rows by its written condition. The mapping and
  provider lookups are written without a condition on \<open>deleted_at\<close>: only where their row
  types are scoped by the mapper do they return undeleted rows.
\<close>

lemma scoped_lookups_exclude_deleted:
  assumes "scoped_mappings db" and "scoped_providers db"
    and "ProvidersBymodelsName db name = Inr lim"
  shows "(\<exists>m \<in> set (tbl_models db). m_Name m = name \<and> m_DeletedAt m = None
            \<and> (\<forall>mp \<in> set (Providers lim). mp_ModelID mp = m_ID m))
       \<and> (\<forall>mp \<in> set (Providers lim). mp \<in> set (tbl_mappings db) \<and> mp_DeletedAt mp = None)
       \<and> (\<forall>p \<in> set (load_providers db (map mp_ProviderID (Providers lim)) style).
             p \<in> set (tbl_providers db) \<and> p_DeletedAt p = None)
       \<and> (\<forall>k \<in> fst ` set (build_items bf style
                 (build_providerMap (load_providers db (map mp_ProviderID (Providers lim)) style))
                 (Providers lim) []).
             \<exists>mp \<in> set (tbl_mappings db). mp_ID mp = k \<and> mp_DeletedAt mp = None)"
proof -
  from ProvidersBymodelsName_Inr [OF assms(3)] obtain m where
    m: "m \<in> set (tbl_models db)" "m_Name m = name" "m_DeletedAt m = None"
    and ps: "Providers lim = Find (scoped_mappings db) mp_DeletedAt
                                 (\<lambda>mp. mp_ModelID mp = m_ID m) (tbl_mappings db)"
    by blast
  have a: "\<forall>mp \<in> set (Providers lim). mp_ModelID mp = m_ID m \<and> mp \<in> set (tbl_mappings db)
             \<and> mp_DeletedAt mp = None"
    using assms(1) by (simp add: ps Find_def)
  have b: "\<forall>p \<in> set (load_providers db (map mp_ProviderID (Providers lim)) style).
             p \<in> set (tbl_providers db) \<and> p_DeletedAt p = None"
    using assms(2) load_providers_mem [of _ db _ style] by blast
  have c: "\<exists>mp \<in> set (tbl_mappings db). mp_ID mp = k \<and> mp_DeletedAt mp = None"
    if "k \<in> fst ` set (build_items bf style pm (Providers lim) [])" for k pm
  proof -
    from keys_build_items [OF that] have "k \<in> mp_ID ` set (Providers lim)" by simp
    then obtain mp where "mp \<in> set (Providers lim)" "mp_ID mp = k" by (elim imageE) simp
    with a show ?thesis by blast
  qed
  from m a b c show ?thesis by blast
qed



subsection \<open>The timer case of the selector\<close>

text \<open>With a positive timer duration the timer case of the selector is never taken,
  whatever the clock shows and however long the attempts take.\<close>

lemma select_mapping_no_timeout:
  "0 < timer_duration (q_TimeOut rq) \<Longrightarrow> select_mapping rq e st \<noteq> Inl RetryTimeout"
  by (auto simp: select_mapping_def attempt_select_def WeightedRandom_def Let_def
      split: branch.splits sum.splits if_splits option.splits)

lemma positive_timeout_never_fires:
  "0 < timer_duration (q_TimeOut rq) \<Longrightarrow> o_err (dispatch rq n st) \<noteq> Some RetryTimeout"
proof (induction rq n st rule: dispatch.induct)
  case (1 rq retry st)
  show ?case
  proof (cases "int retry < q_MaxRetry rq")
    case False
    then show ?thesis by (simp add: dispatch_unfold_end failed_def)
  next
    case True
    show ?thesis
    proof (cases "attempt rq (q_attempts rq retry) retry st")
      case (Next st')
      from "1.IH" [OF True Next "1.prems"] show ?thesis
        by (simp add: dispatch_unfold_Next [OF True Next])
    next
      case (Done out)
      from attempt_Done [OF Done] select_mapping_no_timeout [OF "1.prems"]
      show ?thesis
        by (auto simp: dispatch_unfold_Done [OF True Done] failed_def)
    qed
  qed
qed

text \<open>
  C5 asks that the request ends with the timeout error once \<open>timeout_seconds\<close> have
  passed between attempts. Here the timeout is one second and the second attempt starts
  five seconds after the first: the selector takes \<open>default\<close>, the attempt runs, and the
  request succeeds.
\<close>

theorem C5_timer_branch_not_taken:
  "timer_duration (q_TimeOut ex_rq_1s) = 1000000000
   \<and> a_now (q_attempts ex_rq_1s 1) - a_now (q_attempts ex_rq_1s 0) = 5000000000
   \<and> a_timer_seen (q_attempts ex_rq_1s 1)
   \<and> o_err (dispatch ex_rq_1s 0 (start_state [(1, 6), (2, 3)])) = None
   \<and> length (o_sent (dispatch ex_rq_1s 0 (start_state [(1, 6), (2, 3)]))) = 1
   \<and> c_body (o_client (dispatch ex_rq_1s 0 (start_state [(1, 6), (2, 3)]))) = ''hello''"
  by (simp add: ex_rq_1s_def slow_then_ok_def ex_rq_defs model_defs timer_duration_def
      dispatch.simps io_Copy.simps)

subsection \<open>The order of the log rows\<close>

lemma sends_map [simp]: "sends (map Send fs @ map Save ss) = fs"
  by (induction fs) (simp_all, induction ss, simp_all)

lemma saves_map [simp]: "saves (map Send fs @ map Save ss) = ss"
  by (induction fs) (simp_all, induction ss, simp_all)

text \<open>The invariant holds initially and is kept by every step of either goroutine.\<close>

lemma log_inv_initial:
  "list_all (\<lambda>l. cl_Status l = ''success'') ss \<Longrightarrow>
     log_inv fs (initial t0 (map Send fs @ map Save ss))"
  by (simp add: log_inv_def initial_def pending_def error_logs_def)

lemma error_logs_snoc:
  "error_logs (rows @ [r]) = error_logs rows @ (if is_error_row r then [r_log r] else [])"
  by (simp add: error_logs_def)

lemma sorted_snoc_le:
  "sorted (map f xs) \<Longrightarrow> list_all (\<lambda>x. f x \<le> (t::int)) xs \<Longrightarrow> sorted (map f xs @ [t])"
  by (auto simp: sorted_append list_all_iff)

lemma log_inv_step:
  assumes errs: "list_all (\<lambda>l. cl_Status l = ''error'') fs"
    and inv: "log_inv fs c" and step: "sched cap c c'"
  shows "log_inv fs c'"
  using step
proof cases
  case (tick d)
  with inv show ?thesis
    by (auto simp: log_inv_def pending_def list_all_iff)
next
  case (send l ops)
  with inv show ?thesis
    by (auto simp: log_inv_def pending_def)
next
  case (save l ops)
  from inv save(2) have shape: "Save l # ops = map Send (sends ops) @ map Save (l # saves ops)"
    by (simp add: log_inv_def)
  then have nosend: "sends ops = []" by (cases "sends ops") simp_all
  with shape have ops: "ops = map Save (saves ops)" by simp
  from inv save(2) have ok: "cl_Status l = ''success''" by (simp add: log_inv_def)
  then have ne: "\<not> is_error_row \<lparr>r_log = l, r_created_at = g_clock c\<rparr>"
    by (simp add: is_error_row_def)
  from inv save(2) nosend obtain gone where
    d: "fs = gone @ pending c" "subseq (error_logs (g_rows c)) gone"
    by (auto simp: log_inv_def)
  have p: "pending c' = pending c"
    using save nosend by (simp add: pending_def insert_row_def)
  have e: "error_logs (g_rows c') = error_logs (g_rows c)"
    using save ne by (simp add: insert_row_def error_logs_snoc)
  have s: "sorted (map r_created_at (g_rows c'))"
    using inv save by (simp add: log_inv_def insert_row_def sorted_snoc_le)
  have b: "list_all (\<lambda>r. r_created_at r \<le> g_clock c') (g_rows c')"
    using inv save by (simp add: log_inv_def insert_row_def)
  have m: "g_main c' = ops" using save by (simp add: insert_row_def)
  from inv save(2) have sv: "list_all (\<lambda>l. cl_Status l = ''success'') (saves ops)"
    by (simp add: log_inv_def)
  show ?thesis
    unfolding log_inv_def p e m using d s b sv ops nosend by auto
next
  case (recv l ls)
  with inv show ?thesis
    by (auto simp: log_inv_def pending_def)
next
  case (persist l)
  from inv persist obtain gone where
    d: "fs = gone @ l # g_chan c @ sends (g_main c)" "subseq (error_logs (g_rows c)) gone"
    by (auto simp: log_inv_def pending_def)
  from d(1) errs have "cl_Status l = ''error''" by (simp add: list_all_iff)
  then have er: "is_error_row \<lparr>r_log = l, r_created_at = g_clock c\<rparr>"
    by (simp add: is_error_row_def)
  have p: "pending c' = g_chan c @ sends (g_main c)"
    using persist by (simp add: pending_def insert_row_def)
  have e: "error_logs (g_rows c') = error_logs (g_rows c) @ [l]"
    using persist er by (simp add: insert_row_def error_logs_snoc)
  have d': "fs = (gone @ [l]) @ pending c' \<and> subseq (error_logs (g_rows c')) (gone @ [l])"
    unfolding p e using d by simp
  have s: "sorted (map r_created_at (g_rows c'))"
    using inv persist by (simp add: log_inv_def insert_row_def sorted_snoc_le)
  have b: "list_all (\<lambda>r. r_created_at r \<le> g_clock c') (g_rows c')"
    using inv persist by (simp add: log_inv_def insert_row_def)
  have m: "g_main c' = g_main c" using persist by (simp add: insert_row_def)
  have a: "sends (g_main c) \<noteq> [] \<longrightarrow> list_all is_error_row (g_rows c')"
    using inv persist er by (simp add: log_inv_def insert_row_def)
  from inv have rest: "g_main c = map Send (sends (g_main c)) @ map Save (saves (g_main c))"
    "list_all (\<lambda>l. cl_Status l = ''success'') (saves (g_main c))"
    by (simp_all add: log_inv_def)
  show ?thesis
    unfolding log_inv_def m using d' s b a rest by blast
next
  case (drop l)
  from inv drop obtain gone where
    d: "fs = gone @ l # g_chan c @ sends (g_main c)" "subseq (error_logs (g_rows c)) gone"
    by (auto simp: log_inv_def pending_def)
  have p: "pending c' = g_chan c @ sends (g_main c)"
    using drop by (simp add: pending_def)
  have d': "fs = (gone @ [l]) @ pending c' \<and> subseq (error_logs (g_rows c')) (gone @ [l])"
    unfolding p using d drop by (simp add: subseq_rev_drop_many)
  from inv drop d' show ?thesis
    unfolding log_inv_def by (auto simp: log_inv_def)
qed

lemma log_inv_run:
  assumes "list_all (\<lambda>l. cl_Status l = ''error'') fs"
    and "list_all (\<lambda>l. cl_Status l = ''success'') ss"
    and "rtranclp (sched cap) (initial t0 (map Send fs @ map Save ss)) c"
  shows "log_inv fs c"
  using assms(3)
proof (induction rule: rtranclp_induct)
  case base
  from log_inv_initial [OF assms(2)] show ?case .
next
  case (step c c')
  from log_inv_step [OF assms(1) step.IH step.hyps(2)] show ?case .
qed

text \<open>The logs that \<open>BalanceChat\<close> sends have status \<open>error\<close>; the log it saves has
  status \<open>success\<close>.\<close>

lemma attempt_Done_logs:
  assumes "attempt rq e retry st = Done out"
  shows "o_sent out = sent st \<and> list_all (\<lambda>s. cl_Status (snd s) = ''success'') (o_saved out)"
proof (cases "select_mapping rq e st")
  case (Inl err)
  with assms show ?thesis by (auto simp: attempt_def failed_def)
next
  case (Inr sel)
  with assms have "call_and_classify rq e retry st sel = Done out"
    by (simp add: attempt_def)
  then show ?thesis
    by (cases sel)
       (auto simp: call_and_classify_def Let_def failed_def
        split: chat_outcome.splits if_splits option.splits)
qed

lemma dispatch_logs:
  "list_all (\<lambda>l. cl_Status l = ''error'') (sent st) \<Longrightarrow>
     list_all (\<lambda>l. cl_Status l = ''error'') (o_sent (dispatch rq n st))
     \<and> list_all (\<lambda>s. cl_Status (snd s) = ''success'') (o_saved (dispatch rq n st))"
proof (induction rq n st rule: dispatch.induct)
  case (1 rq retry st)
  show ?case
  proof (cases "int retry < q_MaxRetry rq")
    case False
    with "1.prems" show ?thesis by (simp add: dispatch_unfold_end failed_def)
  next
    case True
    show ?thesis
    proof (cases "attempt rq (q_attempts rq retry) retry st")
      case (Next st')
      from attempt_Next [OF Next] "1.prems"
      have "list_all (\<lambda>l. cl_Status l = ''error'') (sent st')" by auto
      from "1.IH" [OF True Next this] show ?thesis
        by (simp add: dispatch_unfold_Next [OF True Next])
    next
      case (Done out)
      from attempt_Done_logs [OF Done] "1.prems" show ?thesis
        by (simp add: dispatch_unfold_Done [OF True Done])
    qed
  qed
qed

text \<open>
  C8, amended. In every interleaving of \<open>BalanceChat\<close> with its log writer: the rows are
  stamped in non-decreasing order of insertion; the error rows are, in that order, among
  the failure logs in attempt order; and once a success row exists \<open>BalanceChat\<close> has no
  failure log left to send, that is, every failure log of attempts \<open>0..k-1\<close> was handed to
  the writer before the success row of attempt \<open>k\<close> was created. When the writer stamps
  them is not bounded by the success row.
\<close>

theorem C8_failure_logs_sent_before_success_row:
  assumes "rtranclp (sched cap) (initial t0 (main_ops (dispatch rq 0 (start_state its)))) c"
  shows "sorted (map r_created_at (g_rows c))
       \<and> subseq (error_logs (g_rows c)) (o_sent (dispatch rq 0 (start_state its)))
       \<and> (list_ex is_success_row (g_rows c) \<longrightarrow> sends (g_main c) = [])"
proof -
  let ?out = "dispatch rq 0 (start_state its)"
  have "list_all (\<lambda>l. cl_Status l = ''error'') (sent (start_state its))"
    by (simp add: start_state_def)
  from dispatch_logs [OF this, of rq 0] have
    e: "list_all (\<lambda>l. cl_Status l = ''error'') (o_sent ?out)"
    and s: "list_all (\<lambda>l. cl_Status l = ''success'') (map snd (o_saved ?out))"
    by (simp_all add: list_all_iff)
  from assms have "rtranclp (sched cap)
      (initial t0 (map Send (o_sent ?out) @ map Save (map snd (o_saved ?out)))) c"
    by (simp add: main_ops_def comp_def)
  from log_inv_run [OF e s this] have inv: "log_inv (o_sent ?out) c" .
  then obtain gone where g: "o_sent ?out = gone @ pending c" "subseq (error_logs (g_rows c)) gone"
    by (auto simp: log_inv_def)
  then have sub: "subseq (error_logs (g_rows c)) (o_sent ?out)"
    by (simp add: subseq_rev_drop_many)
  have "sends (g_main c) = []" if "list_ex is_success_row (g_rows c)"
  proof (rule ccontr)
    assume "sends (g_main c) \<noteq> []"
    with inv have "list_all is_error_row (g_rows c)" by (simp add: log_inv_def)
    with that show False
      by (auto simp: list_all_iff list_ex_iff is_error_row_def is_success_row_def)
  qed
  with inv sub show ?thesis by (simp add: log_inv_def)
qed

text \<open>The interleaving in which the writer is late: the failure log is sent at instant 0,
  the success log is saved at instant 1, the writer receives the failure log and saves
  it at instant 2.\<close>

lemma ex_out_retry_ops: "main_ops ex_out_retry = [Send ex_fail_log, Save ex_ok_log]"
  by (simp add: ex_out_retry_def fail_then_ok_def ex_rq_defs model_defs dispatch.simps
      io_Copy.simps main_ops_def ex_fail_log_def ex_ok_log_def)

lemma ex_out_retry_ok: "o_err ex_out_retry = None"
  by (simp add: ex_out_retry_def fail_then_ok_def ex_rq_defs model_defs dispatch.simps
      io_Copy.simps)

lemma ex_late_schedule:
  "rtranclp (sched 3) (initial 0 [Send ex_fail_log, Save ex_ok_log]) ex_late_cfg"
proof -
  let ?F = ex_fail_log and ?S = ex_ok_log
  let ?c0 = "initial 0 [Send ?F, Save ?S]"
  let ?c1 = "\<lparr>g_clock = 0, g_main = [Save ?S], g_chan = [?F], g_writer = None, g_rows = []\<rparr>"
  let ?c2 = "\<lparr>g_clock = 1, g_main = [Save ?S], g_chan = [?F], g_writer = None, g_rows = []\<rparr>"
  let ?c3 = "\<lparr>g_clock = 1, g_main = [], g_chan = [?F], g_writer = None,
              g_rows = [\<lparr>r_log = ?S, r_created_at = 1\<rparr>]\<rparr>"
  let ?c4 = "\<lparr>g_clock = 1, g_main = [], g_chan = [], g_writer = Some ?F,
              g_rows = [\<lparr>r_log = ?S, r_created_at = 1\<rparr>]\<rparr>"
  let ?c5 = "\<lparr>g_clock = 2, g_main = [], g_chan = [], g_writer = Some ?F,
              g_rows = [\<lparr>r_log = ?S, r_created_at = 1\<rparr>]\<rparr>"
  have s1: "sched 3 ?c0 ?c1"
    using sched.send [of ?c0 ?F "[Save ?S]" 3] by (simp add: initial_def)
  have s2: "sched 3 ?c1 ?c2"
    using sched.tick [of 1 3 ?c1] by simp
  have s3: "sched 3 ?c2 ?c3"
    using sched.save [of ?c2 ?S "[]" 3] by (simp add: insert_row_def)
  have s4: "sched 3 ?c3 ?c4"
    using sched.recv [of ?c3 ?F "[]" 3] by simp
  have s5: "sched 3 ?c4 ?c5"
    using sched.tick [of 1 3 ?c4] by simp
  have s6: "sched 3 ?c5 ex_late_cfg"
    using sched.persist [of ?c5 ?F 3] by (simp add: insert_row_def ex_late_cfg_def ex_late_rows_def)
  from s1 s2 s3 s4 s5 s6 show ?thesis
    by (meson rtranclp.rtrancl_into_rtrancl rtranclp.rtrancl_refl)
qed

text \<open>
  C8, as stated, fails: the request succeeds at attempt 1 after a failure at attempt 0,
  and in the interleaving above the failure row is stamped after the success row.
\<close>

theorem C8_counterexample:
  "o_err ex_out_retry = None
   \<and> rtranclp (sched 3) (initial 0 (main_ops ex_out_retry)) ex_late_cfg
   \<and> g_rows ex_late_cfg = ex_late_rows
   \<and> \<not> failures_not_after_success ex_late_rows"
proof -
  have "\<not> failures_not_after_success ex_late_rows"
    by (simp add: failures_not_after_success_def ex_late_rows_def is_error_row_def
        is_success_row_def ex_fail_log_def ex_ok_log_def)
  with ex_out_retry_ok ex_late_schedule show ?thesis
    by (simp add: ex_out_retry_ops ex_late_cfg_def)
qed

theorem C8_failure_logs_sent_before_success_row_witness:
  "rtranclp (sched 3) (initial 0 (main_ops (dispatch (ex_rq 3 fail_then_ok) 0
       (start_state [(1, 6), (2, 3)])))) ex_late_cfg
   \<and> sorted (map r_created_at (g_rows ex_late_cfg))
   \<and> subseq (error_logs (g_rows ex_late_cfg))
        (o_sent (dispatch (ex_rq 3 fail_then_ok) 0 (start_state [(1, 6), (2, 3)])))
   \<and> list_ex is_success_row (g_rows ex_late_cfg)
   \<and> sends (g_main ex_late_cfg) = []"
proof -
  have r: "rtranclp (sched 3) (initial 0 (main_ops (dispatch (ex_rq 3 fail_then_ok) 0
       (start_state [(1, 6), (2, 3)])))) ex_late_cfg"
    using ex_late_schedule ex_out_retry_ops by (simp add: ex_out_retry_def)
  have x: "list_ex is_success_row (g_rows ex_late_cfg)"
    by (simp add: ex_late_cfg_def ex_late_rows_def is_success_row_def ex_ok_log_def)
  from C8_failure_logs_sent_before_success_row [OF r] r x show ?thesis by simp
qed

end
